theory Spec2Isabelle
  imports Main "HOL-Library.Char_ord" "HOL-Library.List_Lexorder" "HOL-Library.Multiset"
begin

section \<open>Boards, cells and Python indexing\<close>

text \<open>
  A board of \<^verbatim>\<open>klotski_solver.py\<close> is a tuple of rows, each row a tuple of piece
  identifiers (strings such as \<^verbatim>\<open>'w1'\<close>, \<^verbatim>\<open>'r'\<close>, \<^verbatim>\<open>'_1'\<close>). A cell is a pair
  \<^verbatim>\<open>(x, y)\<close> of a row index and a column index; a move is a triple
  \<^verbatim>\<open>(piece, dx, dy)\<close>. Indices are Python integers, so they are \<open>int\<close> here: a
  displaced index may be negative.
\<close>

type_synonym piece = string
type_synonym board = "piece list list"
type_synonym cell = "int \<times> int"
type_synonym move = "piece \<times> int \<times> int"

datatype error = IndexError | KeyError

text \<open>
  \<^verbatim>\<open>xs[i]\<close> in Python: an index in \<open>[0, len)\<close> reads that element, an index in
  \<open>[-len, 0)\<close> counts from the end, every other index raises \<^verbatim>\<open>IndexError\<close>.
  \<^verbatim>\<open>xs[i] = v\<close> on a list follows the same rule.
\<close>

definition py_get :: "'a list \<Rightarrow> int \<Rightarrow> error + 'a" where
  "py_get xs i =
     (if 0 \<le> i \<and> i < int (length xs) then Inr (xs ! nat i)
      else if - int (length xs) \<le> i \<and> i < 0 then Inr (xs ! nat (i + int (length xs)))
      else Inl IndexError)"

definition py_set :: "'a list \<Rightarrow> int \<Rightarrow> 'a \<Rightarrow> error + 'a list" where
  "py_set xs i v =
     (if 0 \<le> i \<and> i < int (length xs) then Inr (xs[nat i := v])
      else if - int (length xs) \<le> i \<and> i < 0 then Inr (xs[nat (i + int (length xs)) := v])
      else Inl IndexError)"

text \<open>\<^verbatim>\<open>board[x][y]\<close> and \<^verbatim>\<open>new_board[x][y] = v\<close>.\<close>

definition board_get :: "board \<Rightarrow> cell \<Rightarrow> error + piece" where
  "board_get b c =
     (case py_get b (fst c) of Inl e \<Rightarrow> Inl e | Inr row \<Rightarrow> py_get row (snd c))"

definition board_set :: "board \<Rightarrow> cell \<Rightarrow> piece \<Rightarrow> error + board" where
  "board_set b c v =
     (case py_get b (fst c) of
        Inl e \<Rightarrow> Inl e
      | Inr row \<Rightarrow>
          (case py_set row (snd c) v of
             Inl e \<Rightarrow> Inl e
           | Inr row' \<Rightarrow> py_set b (fst c) row'))"

section \<open>piece\_locations\<close>

text \<open>
  \<^verbatim>\<open>piece_locations\<close> scans \<^verbatim>\<open>x in range(len(board))\<close>,
  \<^verbatim>\<open>y in range(len(board[0]))\<close> and appends \<^verbatim>\<open>(x, y)\<close> to the list kept under
  \<^verbatim>\<open>board[x][y]\<close>. The dictionary it returns maps each identifier met in the scan to
  the list of its cells in row-major order. A row shorter than the first one makes
  \<^verbatim>\<open>board[x][y]\<close> raise; an empty board gives the empty dictionary.
\<close>

definition cell_at :: "board \<Rightarrow> cell \<Rightarrow> piece" where
  "cell_at b c = b ! nat (fst c) ! nat (snd c)"

definition grid :: "nat \<Rightarrow> nat \<Rightarrow> cell list" where
  "grid n m = concat (map (\<lambda>x. map (\<lambda>y. (int x, int y)) [0..<m]) [0..<n])"

definition scan_cells :: "board \<Rightarrow> cell list" where
  "scan_cells b = grid (length b) (length (hd b))"

definition piece_locations :: "board \<Rightarrow> error + (piece \<rightharpoonup> cell list)" where
  "piece_locations b =
     (if b = [] then Inr Map.empty
      else if \<exists>row \<in> set b. length row < length (hd b) then Inl IndexError
      else Inr (\<lambda>p. let cs = filter (\<lambda>c. cell_at b c = p) (scan_cells b)
                    in if cs = [] then None else Some cs))"

section \<open>The order of a Python set\<close>

text \<open>
  \<^verbatim>\<open>move_piece\<close> walks over the set \<^verbatim>\<open>set(old_loc) - set(new_loc)\<close> and takes
  identifiers out of the set \<^verbatim>\<open>holes\<close> with \<^verbatim>\<open>pop()\<close>. Python does not say in which
  order a set is walked or popped, so the order is a parameter of the model: a rank for
  the vacated cells (it may depend on the two lists the sets were built from) and a rank
  for the displaced hole identifiers (it may depend on the identifiers in the order they
  were added to \<^verbatim>\<open>displaced\<close>). Elements come out by ascending rank. Every theorem
  below holds for all ranks.
\<close>

record set_order =
  cell_rank :: "cell list \<Rightarrow> cell list \<Rightarrow> cell \<Rightarrow> nat"
  hole_rank :: "piece list \<Rightarrow> piece \<Rightarrow> nat"

definition scan_order :: set_order where
  "scan_order = \<lparr> cell_rank = (\<lambda>old new c. 0), hole_rank = (\<lambda>disp h. 0) \<rparr>"

section \<open>move\_piece\<close>

definition shift :: "int \<Rightarrow> int \<Rightarrow> cell \<Rightarrow> cell" where
  "shift dx dy c = (fst c + dx, snd c + dy)"

text \<open>
  The first loop of \<^verbatim>\<open>move_piece\<close>: for every cell of \<^verbatim>\<open>old_loc\<close> read the target
  cell, return \<^verbatim>\<open>None\<close> when it holds neither a hole nor the piece, otherwise record
  its identifier in \<^verbatim>\<open>displaced\<close> and write \<^verbatim>\<open>board[x][y]\<close> into the target cell of
  \<^verbatim>\<open>new_board\<close>. \<open>Inl\<close> is a raised exception, \<open>Inr None\<close> the returned \<^verbatim>\<open>None\<close>.
\<close>

fun slide :: "board \<Rightarrow> piece \<Rightarrow> int \<Rightarrow> int \<Rightarrow> cell list \<Rightarrow> piece list \<Rightarrow> board
              \<Rightarrow> error + (piece list \<times> board) option" where
  "slide b p dx dy [] displaced new_board = Inr (Some (displaced, new_board))"
| "slide b p dx dy (c # cs) displaced new_board =
     (case board_get b (shift dx dy c) of
        Inl e \<Rightarrow> Inl e
      | Inr t \<Rightarrow>
          if t \<notin> {''_1'', ''_2'', p} then Inr None
          else (case board_get b c of
                  Inl e \<Rightarrow> Inl e
                | Inr v \<Rightarrow>
                    (case board_set new_board (shift dx dy c) v of
                       Inl e \<Rightarrow> Inl e
                     | Inr nb \<Rightarrow>
                         slide b p dx dy cs
                           (if t \<in> set displaced then displaced else displaced @ [t]) nb)))"

text \<open>
  The second loop: every vacated cell receives \<^verbatim>\<open>holes.pop()\<close>; popping the empty
  set raises \<^verbatim>\<open>KeyError\<close>.
\<close>

fun refill :: "board \<Rightarrow> cell list \<Rightarrow> piece list \<Rightarrow> error + board" where
  "refill new_board [] holes = Inr new_board"
| "refill new_board (c # cs) [] = Inl KeyError"
| "refill new_board (c # cs) (h # holes) =
     (case board_set new_board c h of
        Inl e \<Rightarrow> Inl e
      | Inr nb \<Rightarrow> refill nb cs holes)"

definition vacated :: "set_order \<Rightarrow> cell list \<Rightarrow> cell list \<Rightarrow> cell list" where
  "vacated so old_loc new_loc =
     sort_key (cell_rank so old_loc new_loc)
       (remdups (filter (\<lambda>c. c \<notin> set new_loc) old_loc))"

definition pop_order :: "set_order \<Rightarrow> piece list \<Rightarrow> piece \<Rightarrow> piece list" where
  "pop_order so displaced p =
     sort_key (hole_rank so displaced) (filter (\<lambda>h. h \<noteq> p) displaced)"

definition old_location :: "board \<Rightarrow> piece \<Rightarrow> cell list option \<Rightarrow> error + cell list" where
  "old_location b p loc_cache =
     (if loc_cache = None \<or> loc_cache = Some [] then
        (case piece_locations b of
           Inl e \<Rightarrow> Inl e
         | Inr pos \<Rightarrow> (case pos p of None \<Rightarrow> Inl KeyError | Some cs \<Rightarrow> Inr cs))
      else Inr (the loc_cache))"

definition move_piece :: "set_order \<Rightarrow> board \<Rightarrow> move \<Rightarrow> cell list option
                          \<Rightarrow> error + board option" where
  "move_piece so b mv loc_cache =
     (case mv of (p, dx, dy) \<Rightarrow>
        (case old_location b p loc_cache of
           Inl e \<Rightarrow> Inl e
         | Inr old_loc \<Rightarrow>
             (case slide b p dx dy old_loc [] b of
                Inl e \<Rightarrow> Inl e
              | Inr None \<Rightarrow> Inr None
              | Inr (Some (displaced, nb)) \<Rightarrow>
                  (case refill nb (vacated so old_loc (map (shift dx dy) old_loc))
                          (pop_order so displaced p) of
                     Inl e \<Rightarrow> Inl e
                   | Inr nb' \<Rightarrow> Inr (Some nb')))))"

section \<open>possible\_moves\<close>

text \<open>
  The generator tries, for the first cell of each hole and each of the four directions,
  to slide the neighbouring piece into the hole. It is modelled by the list of what it
  yields; an exception raised while it runs ends the list with \<open>Inl\<close>.
\<close>

definition directions :: "cell list" where
  "directions = [(1, 0), (-1, 0), (0, 1), (0, -1)]"

fun try_moves :: "set_order \<Rightarrow> board \<Rightarrow> (piece \<rightharpoonup> cell list) \<Rightarrow> (cell \<times> cell) list
                  \<Rightarrow> (error + board \<times> move) list" where
  "try_moves so b pos [] = []"
| "try_moves so b pos ((h, d) # rest) =
     (let t = shift (fst d) (snd d) h in
      if 0 \<le> fst t \<and> fst t < int (length b) \<and> 0 \<le> snd t \<and> snd t < int (length (hd b)) then
        (case board_get b t of
           Inl e \<Rightarrow> [Inl e]
         | Inr p \<Rightarrow>
             (case pos p of
                None \<Rightarrow> [Inl KeyError]
              | Some cs \<Rightarrow>
                  (case move_piece so b (p, - fst d, - snd d) (Some cs) of
                     Inl e \<Rightarrow> [Inl e]
                   | Inr None \<Rightarrow> try_moves so b pos rest
                   | Inr (Some nboard) \<Rightarrow>
                       if nboard \<noteq> [] then
                         Inr (nboard, (p, - fst d, - snd d)) # try_moves so b pos rest
                       else try_moves so b pos rest)))
      else try_moves so b pos rest)"

definition possible_moves :: "set_order \<Rightarrow> board \<Rightarrow> (error + board \<times> move) list" where
  "possible_moves so b =
     (case piece_locations b of
        Inl e \<Rightarrow> [Inl e]
      | Inr pos \<Rightarrow>
          (case pos ''_1'' of
             None \<Rightarrow> [Inl KeyError]
           | Some h1 \<Rightarrow>
               (case pos ''_2'' of
                  None \<Rightarrow> [Inl KeyError]
                | Some h2 \<Rightarrow>
                    try_moves so b pos (List.product [hd h1, hd h2] directions))))"

section \<open>baseform\<close>

text \<open>
  \<^verbatim>\<open>uniq_ordered\<close> keeps the first occurrence of every element. \<^verbatim>\<open>pgroups\<close> groups
  the identifiers by their first character, \<^verbatim>\<open>piece[0]\<close>, which raises on the empty
  string. \<^verbatim>\<open>pmap\<close> pairs each group, in order of first occurrence, with the sorted
  group. The groups are disjoint, so the order in which the dictionary \<^verbatim>\<open>pgroups\<close> is
  walked does not change \<^verbatim>\<open>pmap\<close>; the model walks it in order of first occurrence.
\<close>

fun uniq_ordered :: "'a list \<Rightarrow> 'a set \<Rightarrow> 'a list" where
  "uniq_ordered [] seen = []"
| "uniq_ordered (x # xs) seen =
     (if x \<notin> seen then x # uniq_ordered xs (insert x seen) else uniq_ordered xs seen)"

definition pgroups :: "piece list \<Rightarrow> char \<Rightarrow> piece list" where
  "pgroups pieces t = filter (\<lambda>p. hd p = t) pieces"

definition pmap :: "piece list \<Rightarrow> (piece \<rightharpoonup> piece)" where
  "pmap pieces =
     map_of (concat (map (\<lambda>t. zip (pgroups pieces t) (sort (pgroups pieces t)))
                         (uniq_ordered (map hd pieces) {})))"

definition baseform :: "board \<Rightarrow> error + board" where
  "baseform b =
     (let pieces = uniq_ordered (concat b) {} in
      if [] \<in> set pieces then Inl IndexError
      else Inr (map (map (\<lambda>p. the (pmap pieces p))) b))"

text \<open>The renaming that \<^verbatim>\<open>baseform\<close> applies to the cells of a board.\<close>

definition relabel :: "board \<Rightarrow> piece \<Rightarrow> piece" where
  "relabel b p = the (pmap (uniq_ordered (concat b) {}) p)"

section \<open>accept\<close>

text \<open>
  The chained comparison
  \<^verbatim>\<open>board[1][3] == board[1][4] == board[2][3] == board[2][4] == 'r'\<close>
  reads its operands from left to right and stops at the first comparison that fails.
\<close>

definition accept :: "board \<Rightarrow> error + bool" where
  "accept b =
     (case board_get b (1, 3) of Inl e \<Rightarrow> Inl e | Inr a1 \<Rightarrow>
      (case board_get b (1, 4) of Inl e \<Rightarrow> Inl e | Inr a2 \<Rightarrow>
       if a1 \<noteq> a2 then Inr False else
      (case board_get b (2, 3) of Inl e \<Rightarrow> Inl e | Inr a3 \<Rightarrow>
       if a2 \<noteq> a3 then Inr False else
      (case board_get b (2, 4) of Inl e \<Rightarrow> Inl e | Inr a4 \<Rightarrow>
       if a3 \<noteq> a4 then Inr False else Inr (a4 = ''r'')))))"

section \<open>search\<close>

type_synonym node = "board \<times> move list"

text \<open>
  The body of the \<^verbatim>\<open>for\<close> loop of \<^verbatim>\<open>search\<close>, run over what
  \<^verbatim>\<open>possible_moves(kboard)\<close> yields: it either returns a solution or leaves a new
  visited set and a new work list.
\<close>

datatype expansion = Return board "move list" "board set" | Continue "board set" "node list"

definition double_move :: "move \<Rightarrow> move" where
  "double_move nmove = (fst nmove, 2 * fst (snd nmove), 2 * snd (snd nmove))"

definition push :: "node list \<Rightarrow> move list \<Rightarrow> board \<Rightarrow> move \<Rightarrow> node list" where
  "push worklist kmoves nboard nmove =
     (if kmoves \<noteq> [] \<and> last kmoves = nmove
      then (nboard, butlast kmoves @ [double_move nmove]) # worklist
      else worklist @ [(nboard, kmoves @ [nmove])])"

fun expand :: "board set \<Rightarrow> node list \<Rightarrow> move list \<Rightarrow> (error + board \<times> move) list
               \<Rightarrow> error + expansion" where
  "expand seen worklist kmoves [] = Inr (Continue seen worklist)"
| "expand seen worklist kmoves (Inl e # rest) = Inl e"
| "expand seen worklist kmoves (Inr (nboard, nmove) # rest) =
     (case baseform nboard of
        Inl e \<Rightarrow> Inl e
      | Inr bfnboard \<Rightarrow>
          if bfnboard \<notin> seen then
            (case accept nboard of
               Inl e \<Rightarrow> Inl e
             | Inr True \<Rightarrow> Inr (Return nboard (kmoves @ [nmove]) seen)
             | Inr False \<Rightarrow>
                 expand (insert bfnboard seen) (push worklist kmoves nboard nmove) kmoves rest)
          else expand seen worklist kmoves rest)"

text \<open>
  The \<^verbatim>\<open>while\<close> loop. Nothing in the code bounds the number of its iterations, so the
  loop is a partial function: \<open>None\<close> is a run that never returns. A run that returns
  gives the raised exception or the returned value (\<open>None\<close> for Python's \<^verbatim>\<open>None\<close>)
  together with the visited set at that moment.
\<close>

partial_function (option) search_loop ::
  "set_order \<Rightarrow> board set \<Rightarrow> node list \<Rightarrow> (error + node option \<times> board set) option" where
  "search_loop so seen worklist =
     (case worklist of
        [] \<Rightarrow> Some (Inr (None, seen))
      | (kboard, kmoves) # worklist' \<Rightarrow>
          (case expand seen worklist' kmoves (possible_moves so kboard) of
             Inl e \<Rightarrow> Some (Inl e)
           | Inr (Return nboard moves seen') \<Rightarrow> Some (Inr (Some (nboard, moves), seen'))
           | Inr (Continue seen' worklist'') \<Rightarrow> search_loop so seen' worklist''))"

definition search_run :: "set_order \<Rightarrow> board \<Rightarrow> (error + node option \<times> board set) option" where
  "search_run so b = search_loop so {} [(b, [])]"

definition search :: "set_order \<Rightarrow> board \<Rightarrow> (error + node option) option" where
  "search so b = map_option (map_sum id fst) (search_run so b)"

declare search_loop.simps [code]

section \<open>Well-formed boards\<close>

text \<open>
  The code assumes a well-formed board and does not check it. What the theorems below
  need of a well-formed board is less than the whole invariant of the puzzle: the board
  is a non-empty rectangle, each of the two hole identifiers occupies exactly one cell,
  and no identifier is the empty string. Pieces need not be rectangles.
\<close>

definition rect :: "board \<Rightarrow> bool" where
  "rect b \<longleftrightarrow> b \<noteq> [] \<and> hd b \<noteq> [] \<and> list_all (\<lambda>row. length row = length (hd b)) b"

definition wf_board :: "board \<Rightarrow> bool" where
  "wf_board b \<longleftrightarrow>
     rect b \<and> count_list (concat b) ''_1'' = 1 \<and> count_list (concat b) ''_2'' = 1
     \<and> [] \<notin> set (concat b)"

section \<open>What a move does, cell by cell\<close>

text \<open>
  The notions the proofs about \<^verbatim>\<open>move_piece\<close> are stated with. \<open>on_board\<close> are the
  cells of the grid, \<open>indexable\<close> the index pairs that Python accepts (negative indices
  included), \<open>wrap\<close> the cell such a pair reaches, \<open>put\<close> the assignment
  \<^verbatim>\<open>new_board[x][y] = v\<close> at a cell of the grid, and \<open>locations b p\<close> the list
  \<^verbatim>\<open>piece_locations(b)[p]\<close>.
\<close>

definition on_board :: "board \<Rightarrow> cell \<Rightarrow> bool" where
  "on_board b c \<longleftrightarrow>
     0 \<le> fst c \<and> fst c < int (length b) \<and> 0 \<le> snd c \<and> snd c < int (length (hd b))"

definition indexable :: "board \<Rightarrow> cell \<Rightarrow> bool" where
  "indexable b c \<longleftrightarrow>
     - int (length b) \<le> fst c \<and> fst c < int (length b)
     \<and> - int (length (hd b)) \<le> snd c \<and> snd c < int (length (hd b))"

definition wrap :: "board \<Rightarrow> cell \<Rightarrow> cell" where
  "wrap b c = (fst c mod int (length b), snd c mod int (length (hd b)))"

definition put :: "board \<Rightarrow> cell \<Rightarrow> piece \<Rightarrow> board" where
  "put b c v = b[nat (fst c) := (b ! nat (fst c))[nat (snd c) := v]]"

definition locations :: "board \<Rightarrow> piece \<Rightarrow> cell list" where
  "locations b p = filter (\<lambda>c. cell_at b c = p) (scan_cells b)"

text \<open>
  A run of assignments, the set \<^verbatim>\<open>displaced\<close> after a run of \<^verbatim>\<open>add\<close>, and the test
  of the first loop: the target holds a hole or the piece itself.
\<close>

fun put_all :: "board \<Rightarrow> (cell \<times> piece) list \<Rightarrow> board" where
  "put_all b [] = b"
| "put_all b ((c, v) # ps) = put_all (put b c v) ps"

fun note_all :: "piece list \<Rightarrow> piece list \<Rightarrow> piece list" where
  "note_all [] displaced = displaced"
| "note_all (t # ts) displaced =
     note_all ts (if t \<in> set displaced then displaced else displaced @ [t])"

definition allowed :: "piece \<Rightarrow> piece \<Rightarrow> bool" where
  "allowed p t \<longleftrightarrow> t \<in> {''_1'', ''_2'', p}"

definition target :: "board \<Rightarrow> int \<Rightarrow> int \<Rightarrow> cell \<Rightarrow> cell" where
  "target b dx dy c = wrap b (shift dx dy c)"

definition can_slide :: "board \<Rightarrow> piece \<Rightarrow> int \<Rightarrow> int \<Rightarrow> cell \<Rightarrow> bool" where
  "can_slide b p dx dy c \<longleftrightarrow>
     indexable b (shift dx dy c) \<and> allowed p (cell_at b (target b dx dy c))"

text \<open>
  The values of the local variables of \<^verbatim>\<open>move_piece(b, (p, dx, dy))\<close> when the first
  loop has passed every cell: \<^verbatim>\<open>new_board\<close> after the first loop, \<^verbatim>\<open>displaced\<close>,
  the vacated cells and the holes in the order they come out, and the board returned.
\<close>

definition slid :: "board \<Rightarrow> piece \<Rightarrow> int \<Rightarrow> int \<Rightarrow> board" where
  "slid b p dx dy =
     put_all b (zip (map (target b dx dy) (locations b p)) (map (cell_at b) (locations b p)))"

definition displaced_by :: "board \<Rightarrow> piece \<Rightarrow> int \<Rightarrow> int \<Rightarrow> piece list" where
  "displaced_by b p dx dy =
     note_all (map (\<lambda>c. cell_at b (target b dx dy c)) (locations b p)) []"

definition vacated_by :: "set_order \<Rightarrow> board \<Rightarrow> piece \<Rightarrow> int \<Rightarrow> int \<Rightarrow> cell list" where
  "vacated_by so b p dx dy =
     vacated so (locations b p) (map (shift dx dy) (locations b p))"

definition holes_of :: "set_order \<Rightarrow> board \<Rightarrow> piece \<Rightarrow> int \<Rightarrow> int \<Rightarrow> piece list" where
  "holes_of so b p dx dy = pop_order so (displaced_by b p dx dy) p"

definition moved :: "set_order \<Rightarrow> board \<Rightarrow> piece \<Rightarrow> int \<Rightarrow> int \<Rightarrow> board" where
  "moved so b p dx dy =
     put_all (slid b p dx dy) (zip (vacated_by so b p dx dy) (holes_of so b p dx dy))"

section \<open>Holes and reachable boards\<close>

text \<open>The number of cells that hold a hole identifier.\<close>

definition hole_count :: "board \<Rightarrow> nat" where
  "hole_count b = length (filter (\<lambda>q. q = ''_1'' \<or> q = ''_2'') (concat b))"

text \<open>
  The boards reachable from \<open>b0\<close>: by any successful call of \<^verbatim>\<open>move_piece\<close>, or as a
  successor yielded by \<^verbatim>\<open>possible_moves\<close>.
\<close>

inductive reachable :: "set_order \<Rightarrow> board \<Rightarrow> board \<Rightarrow> bool" for so b0 where
  start: "reachable so b0 b0"
| by_move: "reachable so b0 b \<Longrightarrow> move_piece so b mv None = Inr (Some b') \<Longrightarrow> reachable so b0 b'"
| by_successor: "reachable so b0 b \<Longrightarrow> Inr (b', mv) \<in> set (possible_moves so b)
                 \<Longrightarrow> reachable so b0 b'"

text \<open>
  Two boards are compared up to the names of the holes by mapping both hole identifiers
  to the same one.
\<close>

definition unhole :: "piece \<Rightarrow> piece" where
  "unhole q = (if q = ''_2'' then ''_1'' else q)"

section \<open>Boards used as examples\<close>

text \<open>The start board of the source.\<close>

definition start_board :: board where
  "start_board =
     [[''w1'', ''w1'', ''g1'', ''g2'', ''_1''],
      [''r'', ''r'', ''w2'', ''w3'', ''w4''],
      [''r'', ''r'', ''w2'', ''w3'', ''w4''],
      [''w5'', ''w5'', ''g3'', ''g4'', ''_2'']]"

text \<open>The layout the source's header shows with the red piece at the goal.\<close>

definition goal_board :: board where
  "goal_board =
     [[''w1'', ''w1'', ''g1'', ''g2'', ''_1''],
      [''w2'', ''w3'', ''w4'', ''r'', ''r''],
      [''w2'', ''w3'', ''w4'', ''r'', ''r''],
      [''w5'', ''w5'', ''g3'', ''g4'', ''_2'']]"

definition goal_board_next :: board where
  "goal_board_next =
     [[''w1'', ''w1'', ''g1'', ''_1'', ''g2''],
      [''w2'', ''w3'', ''w4'', ''r'', ''r''],
      [''w2'', ''w3'', ''w4'', ''r'', ''r''],
      [''w5'', ''w5'', ''g3'', ''g4'', ''_2'']]"

text \<open>
  Two pinwheels of dominoes, each around one hole: every neighbour of a hole is blocked
  by the next domino, so no piece can move.
\<close>

definition locked_board :: board where
  "locked_board =
     [[''a'', ''a'', ''b'', ''e'', ''e'', ''f''],
      [''c'', ''_1'', ''b'', ''g'', ''_2'', ''f''],
      [''c'', ''d'', ''d'', ''g'', ''h'', ''h'']]"

text \<open>
  The same layout as \<open>start_board\<close> with the instances of each type renamed by
  \<open>shuffle\<close>.
\<close>

definition shuffle :: "piece \<Rightarrow> piece" where
  "shuffle p =
     (case map_of [(''w1'', ''w3''), (''w3'', ''w1''), (''w2'', ''w5''), (''w5'', ''w2''),
                   (''g1'', ''g2''), (''g2'', ''g1''), (''g3'', ''g4''), (''g4'', ''g3''),
                   (''_1'', ''_2''), (''_2'', ''_1'')] p of
        Some q \<Rightarrow> q
      | None \<Rightarrow> p)"

definition shuffled_board :: board where
  "shuffled_board =
     [[''w3'', ''w3'', ''g2'', ''g1'', ''_2''],
      [''r'', ''r'', ''w5'', ''w1'', ''w4''],
      [''r'', ''r'', ''w5'', ''w1'', ''w4''],
      [''w2'', ''w2'', ''g4'', ''g3'', ''_1'']]"

text \<open>
  \<open>start_board\<close> after the move \<^verbatim>\<open>('g2', 0, 1)\<close>, and after the move
  \<^verbatim>\<open>('w1', 0, -1)\<close>, whose target column \<open>-1\<close> is Python's last column.
\<close>

definition g2_moved_board :: board where
  "g2_moved_board =
     [[''w1'', ''w1'', ''g1'', ''_1'', ''g2''],
      [''r'', ''r'', ''w2'', ''w3'', ''w4''],
      [''r'', ''r'', ''w2'', ''w3'', ''w4''],
      [''w5'', ''w5'', ''g3'', ''g4'', ''_2'']]"

definition w1_wrapped_board :: board where
  "w1_wrapped_board =
     [[''w1'', ''_1'', ''g1'', ''g2'', ''w1''],
      [''r'', ''r'', ''w2'', ''w3'', ''w4''],
      [''r'', ''r'', ''w2'', ''w3'', ''w4''],
      [''w5'', ''w5'', ''g3'', ''g4'', ''_2'']]"

section \<open>Indexing a rectangular board\<close>

lemma rect_row_length: "rect b \<Longrightarrow> i < length b \<Longrightarrow> length (b ! i) = length (hd b)"
  by (simp add: rect_def list_all_length)

lemma rect_pos: "rect b \<Longrightarrow> 0 < length b \<and> 0 < length (hd b)"
  by (simp add: rect_def)

lemma same_shape_rect:
  assumes "rect b" and "map length b' = map length b"
  shows "rect b'" and "length b' = length b" and "length (hd b') = length (hd b)"
proof -
  from assms(2) have len: "length b' = length b" by (metis length_map)
  from assms(1) have ne: "b \<noteq> []" by (simp add: rect_def)
  with len have ne': "b' \<noteq> []" by auto
  have rows: "length (b' ! i) = length (b ! i)" if "i < length b" for i
    using that assms(2) len by (metis nth_map)
  from ne ne' rows [of 0] show hd: "length (hd b') = length (hd b)"
    by (simp add: hd_conv_nth)
  show "length b' = length b" by (rule len)
  from assms(1) ne' hd len rows show "rect b'"
    by (auto simp: rect_def list_all_length)
qed

lemma wrap_on_board: "rect b \<Longrightarrow> indexable b c \<Longrightarrow> on_board b (wrap b c)"
  using rect_pos [of b] by (simp add: on_board_def wrap_def)

lemma wrap_id: "on_board b c \<Longrightarrow> wrap b c = c"
  by (cases c) (simp add: on_board_def wrap_def)

lemma on_board_indexable: "on_board b c \<Longrightarrow> indexable b c"
  by (simp add: on_board_def indexable_def)

lemma py_index_mod:
  assumes "- int n \<le> i" and "i < int n"
  shows "(if 0 \<le> i then nat i else nat (i + int n)) = nat (i mod int n)"
proof (cases "0 \<le> i")
  case True
  with assms show ?thesis by simp
next
  case False
  with assms have "0 \<le> i + int n" and "i + int n < int n" by auto
  then have "(i + int n) mod int n = i + int n" by (rule mod_pos_pos_trivial)
  then have "i mod int n = i + int n" by (metis mod_add_self2)
  with False show ?thesis by simp
qed

lemma py_get_mod:
  "py_get xs i = (if - int (length xs) \<le> i \<and> i < int (length xs)
                  then Inr (xs ! nat (i mod int (length xs))) else Inl IndexError)"
  using py_index_mod [of "length xs" i]
  by (auto simp: py_get_def split: if_splits)

lemma py_set_mod:
  "py_set xs i v = (if - int (length xs) \<le> i \<and> i < int (length xs)
                  then Inr (xs[nat (i mod int (length xs)) := v]) else Inl IndexError)"
  using py_index_mod [of "length xs" i]
  by (auto simp: py_set_def split: if_splits)

lemma board_get_rect:
  assumes "rect b"
  shows "board_get b c = (if indexable b c then Inr (cell_at b (wrap b c)) else Inl IndexError)"
proof -
  have "length (b ! nat (fst c mod int (length b))) = length (hd b)"
    if "- int (length b) \<le> fst c" "fst c < int (length b)"
  proof (rule rect_row_length [OF assms])
    from rect_pos [OF assms] have "fst c mod int (length b) < int (length b)" by simp
    moreover from rect_pos [OF assms] have "0 \<le> fst c mod int (length b)" by simp
    ultimately show "nat (fst c mod int (length b)) < length b" by linarith
  qed
  then show ?thesis
    by (auto simp: board_get_def py_get_mod indexable_def cell_at_def wrap_def)
qed

lemma board_set_rect:
  assumes "rect b"
  shows "board_set b c v = (if indexable b c then Inr (put b (wrap b c) v) else Inl IndexError)"
proof -
  have "length (b ! nat (fst c mod int (length b))) = length (hd b)"
    if "- int (length b) \<le> fst c" "fst c < int (length b)"
  proof (rule rect_row_length [OF assms])
    from rect_pos [OF assms] have "fst c mod int (length b) < int (length b)" by simp
    moreover from rect_pos [OF assms] have "0 \<le> fst c mod int (length b)" by simp
    ultimately show "nat (fst c mod int (length b)) < length b" by linarith
  qed
  then show ?thesis
    by (auto simp: board_set_def py_get_mod py_set_mod indexable_def put_def wrap_def)
qed

lemma map_length_put: "map length (put b c v) = map length b"
  by (cases "nat (fst c) < length b")
    (simp_all add: put_def map_update list_update_same_conv list_update_beyond)

lemma cell_at_put:
  assumes "rect b" and "on_board b c" and "on_board b c'"
  shows "cell_at (put b c v) c' = (if c' = c then v else cell_at b c')"
proof -
  from assms(2) have x: "nat (fst c) < length b" and y: "nat (snd c) < length (hd b)"
    by (auto simp: on_board_def)
  from assms(3) have x': "nat (fst c') < length b" and y': "nat (snd c') < length (hd b)"
    by (auto simp: on_board_def)
  have row: "length (b ! nat (fst c)) = length (hd b)" by (rule rect_row_length [OF assms(1) x])
  have eq: "c' = c \<longleftrightarrow> nat (fst c') = nat (fst c) \<and> nat (snd c') = nat (snd c)"
    using assms(2,3) by (auto simp: on_board_def prod_eq_iff)
  show ?thesis
    using x y x' y' row by (auto simp: cell_at_def put_def eq nth_list_update)
qed

lemma grid_Suc: "grid (Suc n) m = grid n m @ map (\<lambda>y. (int n, int y)) [0..<m]"
  by (simp add: grid_def)

lemma set_grid:
  "set (grid n m) = {c. 0 \<le> fst c \<and> fst c < int n \<and> 0 \<le> snd c \<and> snd c < int m}"
proof (induction n)
  case 0
  then show ?case by (auto simp: grid_def)
next
  case (Suc n)
  have "set (map (\<lambda>y. (int n, int y)) [0..<m]) = {c. fst c = int n \<and> 0 \<le> snd c \<and> snd c < int m}"
  proof (rule set_eqI)
    fix c :: cell
    show "c \<in> set (map (\<lambda>y. (int n, int y)) [0..<m])
          \<longleftrightarrow> c \<in> {c. fst c = int n \<and> 0 \<le> snd c \<and> snd c < int m}"
    proof
      assume "c \<in> set (map (\<lambda>y. (int n, int y)) [0..<m])"
      then show "c \<in> {c. fst c = int n \<and> 0 \<le> snd c \<and> snd c < int m}" by auto
    next
      assume "c \<in> {c. fst c = int n \<and> 0 \<le> snd c \<and> snd c < int m}"
      then have "c = (int n, int (nat (snd c)))" and "nat (snd c) < m"
        by (auto simp: prod_eq_iff)
      then show "c \<in> set (map (\<lambda>y. (int n, int y)) [0..<m])"
        by (metis (mono_tags, lifting) atLeast0LessThan imageI lessThan_iff set_map set_upt)
    qed
  qed
  with Suc show ?case by (auto simp: grid_Suc)
qed

lemma distinct_grid: "distinct (grid n m)"
proof (induction n)
  case 0
  then show ?case by (simp add: grid_def)
next
  case (Suc n)
  have "distinct (map (\<lambda>y. (int n, int y)) [0..<m])"
    by (simp add: distinct_map inj_on_def)
  moreover have "set (grid n m) \<inter> set (map (\<lambda>y. (int n, int y)) [0..<m]) = {}"
    by (auto simp: set_grid)
  ultimately show ?case using Suc by (simp add: grid_Suc)
qed

lemma set_scan_cells: "set (scan_cells b) = {c. on_board b c}"
  by (simp add: scan_cells_def set_grid on_board_def)

lemma distinct_scan_cells: "distinct (scan_cells b)"
  by (simp add: scan_cells_def distinct_grid)

lemma concat_grid:
  "\<forall>row \<in> set b. length row = m \<Longrightarrow> concat b = map (cell_at b) (grid (length b) m)"
proof (induction b rule: rev_induct)
  case Nil
  then show ?case by (simp add: grid_def)
next
  case (snoc row b)
  from snoc.prems have lr: "m = length row" and rest: "\<forall>row \<in> set b. length row = m"
    by auto
  have old: "map (cell_at (b @ [row])) (grid (length b) m) = map (cell_at b) (grid (length b) m)"
  proof (rule map_cong [OF refl])
    fix c assume "c \<in> set (grid (length b) m)"
    then have "nat (fst c) < length b" by (auto simp: set_grid)
    then show "cell_at (b @ [row]) c = cell_at b c" by (simp add: cell_at_def nth_append)
  qed
  have "map (cell_at (b @ [row])) (map (\<lambda>y. (int (length b), int y)) [0..<m])
        = map (\<lambda>y. row ! y) [0..<m]"
    by (simp add: cell_at_def comp_def)
  also have "\<dots> = row" unfolding lr by (rule map_nth)
  finally have new:
    "map (cell_at (b @ [row])) (map (\<lambda>y. (int (length b), int y)) [0..<m]) = row" .
  from snoc.IH [OF rest] have "concat b = map (cell_at b) (grid (length b) m)" .
  then have "concat (b @ [row]) = map (cell_at b) (grid (length b) m) @ row" by simp
  also have "\<dots> = map (cell_at (b @ [row])) (grid (length b) m)
      @ map (cell_at (b @ [row])) (map (\<lambda>y. (int (length b), int y)) [0..<m])"
    by (simp only: old new)
  also have "\<dots> = map (cell_at (b @ [row])) (grid (length (b @ [row])) m)"
    by (simp only: grid_Suc map_append length_append_singleton)
  finally show ?case .
qed

lemma rect_rows: "rect b \<Longrightarrow> row \<in> set b \<Longrightarrow> length row = length (hd b)"
  unfolding rect_def list_all_iff by blast

lemma concat_scan: "rect b \<Longrightarrow> concat b = map (cell_at b) (scan_cells b)"
  unfolding scan_cells_def by (rule concat_grid) (blast intro: rect_rows)

lemma set_locations: "set (locations b p) = {c. on_board b c \<and> cell_at b c = p}"
  by (auto simp: locations_def set_scan_cells)

lemma distinct_locations: "distinct (locations b p)"
  by (simp add: locations_def distinct_scan_cells)

lemma count_locations: "rect b \<Longrightarrow> count_list (concat b) p = length (locations b p)"
proof -
  assume r: "rect b"
  have "((=) p) \<circ> cell_at b = (\<lambda>c. cell_at b c = p)" by auto
  then show ?thesis
    by (simp add: concat_scan [OF r] locations_def count_list_eq_length_filter filter_map)
qed

lemma piece_locations_rect:
  "rect b \<Longrightarrow> piece_locations b
     = Inr (\<lambda>p. if locations b p = [] then None else Some (locations b p))"
proof -
  assume r: "rect b"
  then have "b \<noteq> []" by (simp add: rect_def)
  moreover have "\<not> (\<exists>row \<in> set b. length row < length (hd b))"
    using rect_rows [OF r] by fastforce
  ultimately show ?thesis
    unfolding piece_locations_def locations_def Let_def by simp
qed

lemma old_location_rect:
  "rect b \<Longrightarrow> old_location b p None
     = (if locations b p = [] then Inl KeyError else Inr (locations b p))"
  by (simp add: old_location_def piece_locations_rect)

lemma old_location_cache:
  "rect b \<Longrightarrow> locations b p \<noteq> [] \<Longrightarrow>
     old_location b p (Some (locations b p)) = old_location b p None"
  by (simp add: old_location_def piece_locations_rect)

section \<open>Assignments to cells\<close>

lemma set_note_all: "set (note_all ts d) = set d \<union> set ts"
  by (induction ts arbitrary: d) auto

lemma distinct_note_all: "distinct d \<Longrightarrow> distinct (note_all ts d)"
  by (induction ts arbitrary: d) auto

lemma map_length_put_all: "map length (put_all b ps) = map length b"
  by (induction b ps rule: put_all.induct) (simp_all add: map_length_put)

lemma same_shape_on_board:
  assumes "map length b' = map length b" and "rect b"
  shows "on_board b' = on_board b"
  using same_shape_rect(2,3) [OF assms(2,1)] by (simp add: on_board_def fun_eq_iff)

lemma same_shape_indexable:
  assumes "map length b' = map length b" and "rect b"
  shows "indexable b' = indexable b"
  using same_shape_rect(2,3) [OF assms(2,1)] by (simp add: indexable_def fun_eq_iff)

lemma same_shape_wrap:
  assumes "map length b' = map length b" and "rect b"
  shows "wrap b' = wrap b"
  using same_shape_rect(2,3) [OF assms(2,1)] by (simp add: wrap_def fun_eq_iff)

lemma rect_put: "rect b \<Longrightarrow> rect (put b c v)"
  by (rule same_shape_rect(1) [OF _ map_length_put])

lemma on_board_put: "rect b \<Longrightarrow> on_board (put b c v) = on_board b"
  by (rule same_shape_on_board [OF map_length_put])

lemma on_board_put_all: "rect b \<Longrightarrow> on_board (put_all b ps) = on_board b"
  by (rule same_shape_on_board [OF map_length_put_all])

lemma rect_put_all: "rect b \<Longrightarrow> rect (put_all b ps)"
  by (rule same_shape_rect(1) [OF _ map_length_put_all])

lemma cell_at_put_all:
  assumes "rect b" and "\<forall>c \<in> set (map fst ps). on_board b c" and "distinct (map fst ps)"
    and "on_board b c'"
  shows "cell_at (put_all b ps) c' = (case map_of ps c' of Some v \<Rightarrow> v | None \<Rightarrow> cell_at b c')"
  using assms
proof (induction b ps rule: put_all.induct)
  case (1 b)
  then show ?case by simp
next
  case (2 b c v ps)
  have r: "rect (put b c v)" by (rule rect_put [OF "2.prems"(1)])
  have ob: "on_board (put b c v) = on_board b" by (rule on_board_put [OF "2.prems"(1)])
  have IH: "cell_at (put_all (put b c v) ps) c'
      = (case map_of ps c' of Some v \<Rightarrow> v | None \<Rightarrow> cell_at (put b c v) c')"
    using "2.prems" by (intro "2.IH" r) (simp_all add: ob)
  have c: "on_board b c" using "2.prems"(2) by simp
  show ?case
  proof (cases "c' = c")
    case True
    with "2.prems"(3) have "map_of ps c' = None"
      by (simp add: map_of_eq_None_iff)
    with True IH cell_at_put [OF "2.prems"(1) c c] show ?thesis by simp
  next
    case False
    with IH cell_at_put [OF "2.prems"(1) c "2.prems"(4)] show ?thesis
      by (simp split: option.split)
  qed
qed

lemma mset_put:
  assumes "rect b" and "on_board b c"
  shows "add_mset (cell_at b c) (mset (concat (put b c v))) = add_mset v (mset (concat b))"
proof -
  let ?i = "nat (fst c)" and ?j = "nat (snd c)"
  from assms(2) have i: "?i < length b" and j0: "?j < length (hd b)"
    by (auto simp: on_board_def)
  from rect_row_length [OF assms(1) i] j0 have j: "?j < length (b ! ?i)" by simp
  have b: "b = take ?i b @ (b ! ?i) # drop (Suc ?i) b" by (rule id_take_nth_drop [OF i])
  have p: "put b c v = take ?i b @ ((b ! ?i)[?j := v]) # drop (Suc ?i) b"
    unfolding put_def by (rule upd_conv_take_nth_drop [OF i])
  have row: "add_mset (b ! ?i ! ?j) (mset ((b ! ?i)[?j := v])) = add_mset v (mset (b ! ?i))"
    using j by (simp add: mset_update)
  have "mset (concat (put b c v))
      = mset (concat (take ?i b)) + mset ((b ! ?i)[?j := v]) + mset (concat (drop (Suc ?i) b))"
    by (subst p) simp
  moreover have "mset (concat b)
      = mset (concat (take ?i b)) + mset (b ! ?i) + mset (concat (drop (Suc ?i) b))"
    by (subst b) simp
  ultimately show ?thesis using row by (simp add: cell_at_def)
qed

lemma mset_put_all:
  assumes "rect b" and "\<forall>c \<in> set (map fst ps). on_board b c" and "distinct (map fst ps)"
  shows "mset (concat (put_all b ps)) + mset (map (\<lambda>x. cell_at b (fst x)) ps)
         = mset (concat b) + mset (map snd ps)"
  using assms
proof (induction b ps rule: put_all.induct)
  case (1 b)
  then show ?case by simp
next
  case (2 b c v ps)
  have r: "rect (put b c v)" by (rule rect_put [OF "2.prems"(1)])
  have ob: "on_board (put b c v) = on_board b" by (rule on_board_put [OF "2.prems"(1)])
  have c: "on_board b c" using "2.prems"(2) by simp
  have IH: "mset (concat (put_all (put b c v) ps)) + mset (map (\<lambda>x. cell_at (put b c v) (fst x)) ps)
         = mset (concat (put b c v)) + mset (map snd ps)"
    using "2.prems" by (intro "2.IH" r) (simp_all add: ob)
  have "map (\<lambda>x. cell_at (put b c v) (fst x)) ps = map (\<lambda>x. cell_at b (fst x)) ps"
  proof (rule map_cong [OF refl])
    fix x assume x: "x \<in> set ps"
    with "2.prems"(2) have "on_board b (fst x)" by simp
    moreover from x "2.prems"(3) have "fst x \<noteq> c" by auto
    ultimately show "cell_at (put b c v) (fst x) = cell_at b (fst x)"
      using cell_at_put [OF "2.prems"(1) c] by simp
  qed
  with IH have "mset (concat (put_all (put b c v) ps)) + mset (map (\<lambda>x. cell_at b (fst x)) ps)
         = mset (concat (put b c v)) + mset (map snd ps)" by simp
  then have "add_mset (cell_at b c) (mset (concat (put_all (put b c v) ps)) + mset (map (\<lambda>x. cell_at b (fst x)) ps))
         = add_mset (cell_at b c) (mset (concat (put b c v))) + mset (map snd ps)" by simp
  also have "\<dots> = add_mset v (mset (concat b)) + mset (map snd ps)"
    by (simp only: mset_put [OF "2.prems"(1) c])
  finally show ?case by simp
qed

lemma refill_rect:
  assumes "rect nb" and "\<forall>c \<in> set vs. on_board nb c"
  shows "refill nb vs hs = (if length vs \<le> length hs then Inr (put_all nb (zip vs hs))
                            else Inl KeyError)"
  using assms
proof (induction nb vs hs rule: refill.induct)
  case (1 new_board holes)
  then show ?case by simp
next
  case (2 new_board c cs)
  then show ?case by simp
next
  case (3 new_board c cs h holes)
  have c: "on_board new_board c" using "3.prems"(2) by simp
  have bs: "board_set new_board c h = Inr (put new_board c h)"
    using c by (simp add: board_set_rect [OF "3.prems"(1)] on_board_indexable wrap_id)
  have r: "rect (put new_board c h)" by (rule rect_put [OF "3.prems"(1)])
  have "refill (put new_board c h) cs holes
      = (if length cs \<le> length holes then Inr (put_all (put new_board c h) (zip cs holes))
         else Inl KeyError)"
    using "3.prems"(2) by (intro "3.IH" [OF bs r]) (simp add: on_board_put [OF "3.prems"(1)])
  with bs show ?case by simp
qed

section \<open>The two loops of move\_piece\<close>

lemma slide_step:
  assumes r: "rect b" and sh: "map length nb = map length b" and c: "on_board b c"
  shows "slide b p dx dy (c # cs) disp nb =
     (if \<not> indexable b (shift dx dy c) then Inl IndexError
      else if \<not> allowed p (cell_at b (target b dx dy c)) then Inr None
      else slide b p dx dy cs
             (if cell_at b (target b dx dy c) \<in> set disp then disp
              else disp @ [cell_at b (target b dx dy c)])
             (put nb (target b dx dy c) (cell_at b c)))"
proof -
  have rn: "rect nb" by (rule same_shape_rect(1) [OF r sh])
  have g: "board_get b c = Inr (cell_at b c)"
    using c by (simp add: board_get_rect [OF r] on_board_indexable wrap_id)
  have s: "board_set nb (shift dx dy c) v =
      (if indexable b (shift dx dy c) then Inr (put nb (target b dx dy c) v) else Inl IndexError)" for v
    by (simp add: board_set_rect [OF rn] same_shape_indexable [OF sh r]
        same_shape_wrap [OF sh r] target_def)
  have gt: "board_get b (shift dx dy c) =
      (if indexable b (shift dx dy c) then Inr (cell_at b (target b dx dy c))
       else Inl IndexError)"
    by (simp add: board_get_rect [OF r] target_def)
  show ?thesis
    unfolding slide.simps gt g s allowed_def by simp
qed

lemma slide_ok:
  assumes "rect b" and "map length nb = map length b" and "\<forall>c \<in> set cs. on_board b c"
    and "\<forall>c \<in> set cs. can_slide b p dx dy c"
  shows "slide b p dx dy cs disp nb =
     Inr (Some (note_all (map (\<lambda>c. cell_at b (target b dx dy c)) cs) disp,
                put_all nb (zip (map (target b dx dy) cs) (map (cell_at b) cs))))"
  using assms
proof (induction cs arbitrary: disp nb)
  case Nil
  then show ?case by simp
next
  case (Cons c cs)
  have c: "on_board b c" using Cons.prems(3) by simp
  have ok: "indexable b (shift dx dy c)" "allowed p (cell_at b (target b dx dy c))"
    using Cons.prems(4) by (simp_all add: can_slide_def)
  have sh: "map length (put nb (target b dx dy c) (cell_at b c)) = map length b"
    using Cons.prems(2) by (simp add: map_length_put)
  have rest: "\<forall>c \<in> set cs. on_board b c" "\<forall>c \<in> set cs. can_slide b p dx dy c"
    using Cons.prems(3,4) by simp_all
  show ?case
    by (simp add: slide_step [OF Cons.prems(1,2) c] ok
        Cons.IH [OF Cons.prems(1) sh rest] del: slide.simps)
qed

lemma slide_Some_imp:
  assumes "rect b" and "map length nb = map length b" and "\<forall>c \<in> set cs. on_board b c"
    and "slide b p dx dy cs disp nb = Inr (Some res)"
  shows "\<forall>c \<in> set cs. can_slide b p dx dy c"
  using assms
proof (induction cs arbitrary: disp nb)
  case Nil
  then show ?case by simp
next
  case (Cons c cs)
  have c: "on_board b c" using Cons.prems(3) by simp
  have sh: "map length (put nb (target b dx dy c) (cell_at b c)) = map length b"
    using Cons.prems(2) by (simp add: map_length_put)
  have rest: "\<forall>c \<in> set cs. on_board b c" using Cons.prems(3) by simp
  from Cons.prems(4) have ok: "indexable b (shift dx dy c)"
      "allowed p (cell_at b (target b dx dy c))"
    and nxt: "slide b p dx dy cs
         (if cell_at b (target b dx dy c) \<in> set disp then disp
          else disp @ [cell_at b (target b dx dy c)])
         (put nb (target b dx dy c) (cell_at b c)) = Inr (Some res)"
    unfolding slide_step [OF Cons.prems(1,2) c] by (simp_all split: if_splits del: slide.simps)
  from Cons.IH [OF Cons.prems(1) sh rest nxt] ok show ?case
    by (simp add: can_slide_def)
qed

lemma slide_blocked:
  assumes "rect b" and "map length nb = map length b" and "\<forall>c \<in> set cs. on_board b c"
    and "\<forall>c \<in> set cs. indexable b (shift dx dy c)"
    and "\<exists>c \<in> set cs. \<not> allowed p (cell_at b (target b dx dy c))"
  shows "slide b p dx dy cs disp nb = Inr None"
  using assms
proof (induction cs arbitrary: disp nb)
  case Nil
  then show ?case by simp
next
  case (Cons c cs)
  have c: "on_board b c" using Cons.prems(3) by simp
  have ix: "indexable b (shift dx dy c)" using Cons.prems(4) by simp
  have sh: "map length (put nb (target b dx dy c) (cell_at b c)) = map length b"
    using Cons.prems(2) by (simp add: map_length_put)
  have rest: "\<forall>c \<in> set cs. on_board b c" "\<forall>c \<in> set cs. indexable b (shift dx dy c)"
    using Cons.prems(3,4) by simp_all
  show ?case
  proof (cases "allowed p (cell_at b (target b dx dy c))")
    case True
    with Cons.prems(5) have "\<exists>c \<in> set cs. \<not> allowed p (cell_at b (target b dx dy c))"
      by auto
    from Cons.IH [OF Cons.prems(1) sh rest this] True ix show ?thesis
      by (simp add: slide_step [OF Cons.prems(1,2) c] del: slide.simps)
  next
    case False
    with ix show ?thesis by (simp add: slide_step [OF Cons.prems(1,2) c] del: slide.simps)
  qed
qed

lemma target_on_board: "rect b \<Longrightarrow> indexable b (shift dx dy c) \<Longrightarrow> on_board b (target b dx dy c)"
  by (simp add: target_def wrap_on_board)

lemma mod_shift_eq:
  fixes a b d n :: int
  assumes "(a + d) mod n = (b + d) mod n" and "0 \<le> a" "a < n" "0 \<le> b" "b < n"
  shows "a = b"
proof -
  from assms(1) have "(a + d - d) mod n = (b + d - d) mod n"
    by (rule mod_diff_cong) simp
  with assms(2-) show ?thesis by simp
qed

lemma target_inj: "inj_on (target b dx dy) {c. on_board b c}"
proof (rule inj_onI)
  fix c1 c2
  assume "c1 \<in> {c. on_board b c}" and "c2 \<in> {c. on_board b c}"
    and eq: "target b dx dy c1 = target b dx dy c2"
  then have c1: "on_board b c1" and c2: "on_board b c2" by simp_all
  from eq have "(fst c1 + dx) mod int (length b) = (fst c2 + dx) mod int (length b)"
    and "(snd c1 + dy) mod int (length (hd b)) = (snd c2 + dy) mod int (length (hd b))"
    by (simp_all add: target_def wrap_def shift_def)
  with c1 c2 have "fst c1 = fst c2" and "snd c1 = snd c2"
    by (auto simp: on_board_def intro: mod_shift_eq)
  then show "c1 = c2" by (simp add: prod_eq_iff)
qed

lemma hole_unique:
  assumes "wf_board b" and "h = ''_1'' \<or> h = ''_2''"
    and "on_board b c1" "cell_at b c1 = h" "on_board b c2" "cell_at b c2 = h"
  shows "c1 = c2"
proof -
  from assms(1) have r: "rect b" by (simp add: wf_board_def)
  from assms(1,2) have "count_list (concat b) h = 1" by (auto simp: wf_board_def)
  then have "length (locations b h) = 1" by (simp add: count_locations [OF r])
  then obtain c where "locations b h = [c]" by (cases "locations b h") auto
  moreover have "c1 \<in> set (locations b h)" "c2 \<in> set (locations b h)"
    using assms(3-) by (simp_all add: set_locations)
  ultimately show ?thesis by simp
qed

lemma set_vacated: "set (vacated so old new) = set old - set new"
  by (auto simp: vacated_def)

lemma distinct_vacated: "distinct (vacated so old new)"
  by (simp add: vacated_def)

lemma set_pop_order: "set (pop_order so disp p) = set disp - {p}"
  by (auto simp: pop_order_def)

lemma distinct_pop_order: "distinct disp \<Longrightarrow> distinct (pop_order so disp p)"
  by (simp add: pop_order_def)

text \<open>What a successful run of the two loops looks like.\<close>

lemma move_piece_unfold:
  assumes r: "rect b" and ne: "locations b p \<noteq> []"
  shows "move_piece so b (p, dx, dy) None =
     (case slide b p dx dy (locations b p) [] b of
        Inl e \<Rightarrow> Inl e
      | Inr None \<Rightarrow> Inr None
      | Inr (Some (displaced, nb)) \<Rightarrow>
          (case refill nb (vacated so (locations b p) (map (shift dx dy) (locations b p)))
                  (pop_order so displaced p) of
             Inl e \<Rightarrow> Inl e
           | Inr nb' \<Rightarrow> Inr (Some nb')))"
  using ne by (simp add: move_piece_def old_location_rect [OF r])

lemma move_piece_absent:
  "rect b \<Longrightarrow> locations b p = [] \<Longrightarrow> move_piece so b (p, dx, dy) None = Inl KeyError"
  by (simp add: move_piece_def old_location_rect)

section \<open>Vacated cells and displaced holes\<close>

lemma locations_on_board: "c \<in> set (locations b p) \<Longrightarrow> on_board b c"
  by (simp add: set_locations)

lemma locations_cell: "c \<in> set (locations b p) \<Longrightarrow> cell_at b c = p"
  by (simp add: set_locations)

lemma target_inj_locations: "inj_on (target b dx dy) (set (locations b p))"
  by (rule inj_on_subset [OF target_inj]) (auto simp: set_locations)

lemma set_holes_of:
  "set (holes_of so b p dx dy) = cell_at b ` target b dx dy ` set (locations b p) - {p}"
  by (auto simp: holes_of_def set_pop_order displaced_by_def set_note_all)

lemma distinct_holes_of: "distinct (holes_of so b p dx dy)"
  by (simp add: holes_of_def displaced_by_def distinct_pop_order distinct_note_all)

lemma set_vacated_by:
  "set (vacated_by so b p dx dy)
   = set (locations b p) - shift dx dy ` set (locations b p)"
  by (simp add: vacated_by_def set_vacated)

lemma distinct_vacated_by: "distinct (vacated_by so b p dx dy)"
  by (simp add: vacated_by_def distinct_vacated)

lemma stays_is_target:
  assumes "c \<in> set (locations b p)" and "c \<in> shift dx dy ` set (locations b p)"
  shows "c \<in> target b dx dy ` set (locations b p)"
proof -
  from assms(2) obtain c' where c': "c' \<in> set (locations b p)" and c: "c = shift dx dy c'"
    by auto
  from assms(1) have "wrap b c = c" by (simp add: wrap_id locations_on_board)
  with c have "target b dx dy c' = c" by (simp add: target_def)
  with c' show ?thesis by auto
qed

lemma left_cells_vacated:
  "set (locations b p) - target b dx dy ` set (locations b p) \<subseteq> set (vacated_by so b p dx dy)"
  using stays_is_target [of _ b p dx dy] by (auto simp: set_vacated_by)

lemma entered_cells:
  assumes wf: "wf_board b"
    and ok: "\<forall>c \<in> set (locations b p). can_slide b p dx dy c"
  shows "set (holes_of so b p dx dy)
         = cell_at b ` (target b dx dy ` set (locations b p) - set (locations b p))"
    and "inj_on (cell_at b) (target b dx dy ` set (locations b p) - set (locations b p))"
proof -
  let ?S = "set (locations b p)"
  let ?T = "target b dx dy ` ?S"
  from wf have r: "rect b" by (simp add: wf_board_def)
  have T_on: "on_board b t" if "t \<in> ?T" for t
    using that ok by (auto simp: can_slide_def intro: target_on_board [OF r])
  have T_allowed: "allowed p (cell_at b t)" if "t \<in> ?T" for t
    using that ok by (auto simp: can_slide_def)
  have in_S: "t \<in> ?S \<longleftrightarrow> cell_at b t = p" if "t \<in> ?T" for t
    using T_on [OF that] by (simp add: set_locations)
  show "set (holes_of so b p dx dy) = cell_at b ` (?T - ?S)"
    unfolding set_holes_of using in_S by blast
  show "inj_on (cell_at b) (?T - ?S)"
  proof (rule inj_onI)
    fix t1 t2
    assume t1: "t1 \<in> ?T - ?S" and t2: "t2 \<in> ?T - ?S" and eq: "cell_at b t1 = cell_at b t2"
    from t1 in_S have "cell_at b t1 \<noteq> p" by blast
    with T_allowed [of t1] t1 have h: "cell_at b t1 = ''_1'' \<or> cell_at b t1 = ''_2''"
      by (auto simp: allowed_def)
    from t1 t2 have "on_board b t1" "on_board b t2" by (auto intro: T_on)
    with h eq show "t1 = t2" by (intro hole_unique [OF wf h]) simp_all
  qed
qed

lemma holes_le_vacated:
  assumes wf: "wf_board b"
    and ok: "\<forall>c \<in> set (locations b p). can_slide b p dx dy c"
  shows "length (holes_of so b p dx dy) \<le> length (vacated_by so b p dx dy)"
proof -
  let ?S = "set (locations b p)"
  let ?T = "target b dx dy ` ?S"
  have "length (holes_of so b p dx dy) = card (set (holes_of so b p dx dy))"
    by (simp add: distinct_card distinct_holes_of)
  also have "\<dots> = card (cell_at b ` (?T - ?S))"
    by (simp only: entered_cells(1) [OF wf ok])
  also have "\<dots> = card (?T - ?S)"
    by (rule card_image [OF entered_cells(2) [OF wf ok]])
  also have "\<dots> = card ?T - card (?T \<inter> ?S)"
    by (rule card_Diff_subset_Int) simp
  also have "card ?T = card ?S"
    by (rule card_image [OF target_inj_locations])
  also have "?T \<inter> ?S = ?S \<inter> ?T" by blast
  also have "card ?S - card (?S \<inter> ?T) = card (?S - ?T)"
    by (rule card_Diff_subset_Int [symmetric]) simp
  also have "\<dots> \<le> card (set (vacated_by so b p dx dy))"
    by (rule card_mono [OF _ left_cells_vacated]) simp
  also have "\<dots> = length (vacated_by so b p dx dy)"
    by (simp add: distinct_card distinct_vacated_by)
  finally show ?thesis .
qed

lemma vacated_exact:
  assumes wf: "wf_board b"
    and ok: "\<forall>c \<in> set (locations b p). can_slide b p dx dy c"
    and len: "length (vacated_by so b p dx dy) \<le> length (holes_of so b p dx dy)"
  shows "set (vacated_by so b p dx dy)
         = set (locations b p) - target b dx dy ` set (locations b p)"
    and "length (vacated_by so b p dx dy) = length (holes_of so b p dx dy)"
proof -
  let ?S = "set (locations b p)"
  let ?T = "target b dx dy ` ?S"
  show eq: "length (vacated_by so b p dx dy) = length (holes_of so b p dx dy)"
    using len holes_le_vacated [OF wf ok, of so] by simp
  have "card (?S - ?T) = card (?T - ?S)"
  proof -
    have "card (?S - ?T) = card ?S - card (?S \<inter> ?T)"
      by (rule card_Diff_subset_Int) simp
    also have "card ?S = card ?T"
      by (rule card_image [OF target_inj_locations, symmetric])
    also have "?S \<inter> ?T = ?T \<inter> ?S" by blast
    also have "card ?T - card (?T \<inter> ?S) = card (?T - ?S)"
      by (rule card_Diff_subset_Int [symmetric]) simp
    finally show ?thesis .
  qed
  also have "\<dots> = card (cell_at b ` (?T - ?S))"
    by (rule card_image [OF entered_cells(2) [OF wf ok], symmetric])
  also have "\<dots> = card (set (holes_of so b p dx dy))"
    by (simp only: entered_cells(1) [OF wf ok])
  also have "\<dots> = length (holes_of so b p dx dy)"
    by (simp add: distinct_card distinct_holes_of)
  also have "\<dots> = card (set (vacated_by so b p dx dy))"
    by (simp add: eq [symmetric] distinct_card distinct_vacated_by)
  finally have "card (?S - ?T) = card (set (vacated_by so b p dx dy))" .
  with left_cells_vacated [of b p dx dy so]
  show "set (vacated_by so b p dx dy) = ?S - ?T"
    by (metis List.finite_set card_subset_eq)
qed

lemma map_length_slid: "map length (slid b p dx dy) = map length b"
  by (simp add: slid_def map_length_put_all)

lemma map_length_moved: "map length (moved so b p dx dy) = map length b"
  by (simp add: moved_def map_length_put_all map_length_slid)

lemma move_piece_result:
  assumes wf: "wf_board b" and ne: "locations b p \<noteq> []"
    and ok: "\<forall>c \<in> set (locations b p). can_slide b p dx dy c"
  shows "move_piece so b (p, dx, dy) None =
     (if length (vacated_by so b p dx dy) \<le> length (holes_of so b p dx dy)
      then Inr (Some (moved so b p dx dy)) else Inl KeyError)"
proof -
  from wf have r: "rect b" by (simp add: wf_board_def)
  have on: "\<forall>c \<in> set (locations b p). on_board b c" by (simp add: locations_on_board)
  have sl: "slide b p dx dy (locations b p) [] b
      = Inr (Some (displaced_by b p dx dy, slid b p dx dy))"
    unfolding displaced_by_def slid_def by (rule slide_ok [OF r refl on ok])
  have rs: "rect (slid b p dx dy)"
    by (rule same_shape_rect(1) [OF r map_length_slid])
  have von: "\<forall>c \<in> set (vacated_by so b p dx dy). on_board (slid b p dx dy) c"
    by (auto simp: same_shape_on_board [OF map_length_slid r] set_vacated_by
        intro: locations_on_board)
  show ?thesis
    unfolding move_piece_unfold [OF r ne] sl
    by (simp add: refill_rect [OF rs von] moved_def
        vacated_by_def [symmetric] holes_of_def [symmetric])
qed

lemma move_piece_Some_imp:
  assumes wf: "wf_board b" and mv: "move_piece so b (p, dx, dy) None = Inr (Some b2)"
  shows "locations b p \<noteq> []" and "\<forall>c \<in> set (locations b p). can_slide b p dx dy c"
    and "length (vacated_by so b p dx dy) = length (holes_of so b p dx dy)"
    and "b2 = moved so b p dx dy"
proof -
  from wf have r: "rect b" by (simp add: wf_board_def)
  show ne: "locations b p \<noteq> []"
    using mv move_piece_absent [OF r, of p so dx dy] by auto
  have on: "\<forall>c \<in> set (locations b p). on_board b c" by (simp add: locations_on_board)
  from mv obtain res where sl: "slide b p dx dy (locations b p) [] b = Inr (Some res)"
    unfolding move_piece_unfold [OF r ne] by (auto split: sum.splits option.splits)
  show ok: "\<forall>c \<in> set (locations b p). can_slide b p dx dy c"
    by (rule slide_Some_imp [OF r refl on sl])
  from mv have le: "length (vacated_by so b p dx dy) \<le> length (holes_of so b p dx dy)"
    and b2: "b2 = moved so b p dx dy"
    unfolding move_piece_result [OF wf ne ok] by (simp_all split: if_splits)
  show "b2 = moved so b p dx dy" by (rule b2)
  show "length (vacated_by so b p dx dy) = length (holes_of so b p dx dy)"
    by (rule vacated_exact(2) [OF wf ok le])
qed

lemma map_of_const:
  "map_of (map (\<lambda>c. (f c, v)) xs) k = (if k \<in> f ` set xs then Some v else None)"
  by (induction xs) auto

lemma cell_at_slid:
  assumes wf: "wf_board b"
    and ok: "\<forall>c \<in> set (locations b p). can_slide b p dx dy c"
    and c: "on_board b c"
  shows "cell_at (slid b p dx dy) c
         = (if c \<in> target b dx dy ` set (locations b p) then p else cell_at b c)"
proof -
  let ?old = "locations b p"
  let ?ps = "zip (map (target b dx dy) ?old) (map (cell_at b) ?old)"
  from wf have r: "rect b" by (simp add: wf_board_def)
  have keys: "map fst ?ps = map (target b dx dy) ?old" by simp
  have on: "\<forall>c \<in> set (map fst ?ps). on_board b c"
    unfolding keys using ok by (auto simp: can_slide_def intro: target_on_board [OF r])
  have d: "distinct (map fst ?ps)"
    unfolding keys by (simp add: distinct_map distinct_locations target_inj_locations)
  have ps: "?ps = map (\<lambda>c. (target b dx dy c, p)) ?old"
    by (rule nth_equalityI) (simp_all add: locations_cell)
  have "map_of ?ps c = (if c \<in> target b dx dy ` set ?old then Some p else None)"
    unfolding ps by (rule map_of_const)
  with cell_at_put_all [OF r on d c] show ?thesis by (simp add: slid_def)
qed

lemma mset_slid:
  assumes wf: "wf_board b"
    and ok: "\<forall>c \<in> set (locations b p). can_slide b p dx dy c"
  shows "mset (concat (slid b p dx dy))
           + mset (map (\<lambda>c. cell_at b (target b dx dy c)) (locations b p))
         = mset (concat b) + replicate_mset (length (locations b p)) p"
proof -
  let ?old = "locations b p"
  let ?ps = "zip (map (target b dx dy) ?old) (map (cell_at b) ?old)"
  from wf have r: "rect b" by (simp add: wf_board_def)
  have keys: "map fst ?ps = map (target b dx dy) ?old" by simp
  have on: "\<forall>c \<in> set (map fst ?ps). on_board b c"
    unfolding keys using ok by (auto simp: can_slide_def intro: target_on_board [OF r])
  have d: "distinct (map fst ?ps)"
    unfolding keys by (simp add: distinct_map distinct_locations target_inj_locations)
  have ps: "?ps = map (\<lambda>c. (target b dx dy c, p)) ?old"
    by (rule nth_equalityI) (simp_all add: locations_cell)
  have "mset (concat (put_all b ?ps)) + mset (map (\<lambda>x. cell_at b (fst x)) ?ps)
        = mset (concat b) + mset (map snd ?ps)"
    by (rule mset_put_all [OF r on d])
  then show ?thesis
    unfolding slid_def [symmetric] unfolding ps
    by (simp add: comp_def image_mset_const_eq)
qed

section \<open>A move keeps the cells of every piece\<close>

lemma cell_at_moved:
  assumes wf: "wf_board b"
    and ok: "\<forall>c \<in> set (locations b p). can_slide b p dx dy c"
    and len: "length (vacated_by so b p dx dy) = length (holes_of so b p dx dy)"
    and c: "on_board b c"
  shows "cell_at (moved so b p dx dy) c
         = (case map_of (zip (vacated_by so b p dx dy) (holes_of so b p dx dy)) c of
              Some h \<Rightarrow> h
            | None \<Rightarrow> if c \<in> target b dx dy ` set (locations b p) then p else cell_at b c)"
proof -
  let ?ps = "zip (vacated_by so b p dx dy) (holes_of so b p dx dy)"
  from wf have r: "rect b" by (simp add: wf_board_def)
  have rs: "rect (slid b p dx dy)" by (rule same_shape_rect(1) [OF r map_length_slid])
  have obs: "on_board (slid b p dx dy) = on_board b"
    by (rule same_shape_on_board [OF map_length_slid r])
  have keys: "map fst ?ps = vacated_by so b p dx dy" using len by simp
  have on: "\<forall>c \<in> set (map fst ?ps). on_board (slid b p dx dy) c"
    unfolding keys obs by (auto simp: set_vacated_by intro: locations_on_board)
  have d: "distinct (map fst ?ps)" unfolding keys by (rule distinct_vacated_by)
  have c': "on_board (slid b p dx dy) c" using c by (simp add: obs)
  show ?thesis
    unfolding moved_def cell_at_put_all [OF rs on d c'] cell_at_slid [OF wf ok c] ..
qed

lemma mset_moved:
  assumes wf: "wf_board b"
    and ok: "\<forall>c \<in> set (locations b p). can_slide b p dx dy c"
    and len: "length (vacated_by so b p dx dy) = length (holes_of so b p dx dy)"
  shows "mset (concat (moved so b p dx dy))
           + replicate_mset (length (holes_of so b p dx dy)) p
         = mset (concat (slid b p dx dy)) + mset (holes_of so b p dx dy)"
proof -
  let ?ps = "zip (vacated_by so b p dx dy) (holes_of so b p dx dy)"
  from wf have r: "rect b" by (simp add: wf_board_def)
  have rs: "rect (slid b p dx dy)" by (rule same_shape_rect(1) [OF r map_length_slid])
  have obs: "on_board (slid b p dx dy) = on_board b"
    by (rule same_shape_on_board [OF map_length_slid r])
  have keys: "map fst ?ps = vacated_by so b p dx dy" using len by simp
  have vals: "map snd ?ps = holes_of so b p dx dy" using len by simp
  have on: "\<forall>c \<in> set (map fst ?ps). on_board (slid b p dx dy) c"
    unfolding keys obs by (auto simp: set_vacated_by intro: locations_on_board)
  have d: "distinct (map fst ?ps)" unfolding keys by (rule distinct_vacated_by)
  have "map (\<lambda>x. cell_at (slid b p dx dy) (fst x)) ?ps = map (\<lambda>x. p) ?ps"
  proof (rule map_cong [OF refl])
    fix x assume "x \<in> set ?ps"
    then have "fst x \<in> set (vacated_by so b p dx dy)"
      using set_zip_leftD [of "fst x" "snd x"] by simp
    then have "fst x \<in> set (locations b p)" by (simp add: set_vacated_by)
    then show "cell_at (slid b p dx dy) (fst x) = p"
      by (simp add: cell_at_slid [OF wf ok] locations_on_board locations_cell)
  qed
  then have "mset (map (\<lambda>x. cell_at (slid b p dx dy) (fst x)) ?ps)
      = mset (map (\<lambda>x. p) ?ps)"
    by (simp only:)
  also have "\<dots> = replicate_mset (length ?ps) p"
    by (simp add: image_mset_const_eq)
  also have "length ?ps = length (holes_of so b p dx dy)"
    using len by simp
  finally have "mset (map (\<lambda>x. cell_at (slid b p dx dy) (fst x)) ?ps)
      = replicate_mset (length (holes_of so b p dx dy)) p" .
  with mset_put_all [OF rs on d] show ?thesis
    by (simp only: moved_def vals)
qed

lemma displaced_contents:
  assumes wf: "wf_board b"
    and ok: "\<forall>c \<in> set (locations b p). can_slide b p dx dy c"
  shows "mset (filter (\<lambda>t. t \<noteq> p) (map (\<lambda>c. cell_at b (target b dx dy c)) (locations b p)))
         = mset (holes_of so b p dx dy)"
proof -
  let ?g = "\<lambda>c. cell_at b (target b dx dy c)"
  let ?S = "set (locations b p)"
  let ?A = "filter (\<lambda>c. ?g c \<noteq> p) (locations b p)"
  from wf have r: "rect b" by (simp add: wf_board_def)
  have fm: "filter (\<lambda>t. t \<noteq> p) (map ?g (locations b p)) = map ?g ?A"
    by (simp add: filter_map comp_def)
  have "inj_on ?g (set ?A)"
  proof (rule inj_onI)
    fix c1 c2
    assume c1: "c1 \<in> set ?A" and c2: "c2 \<in> set ?A" and eq: "?g c1 = ?g c2"
    have mem: "target b dx dy c \<in> target b dx dy ` ?S - ?S" if "c \<in> set ?A" for c
    proof -
      from that have cS: "c \<in> ?S" and np: "?g c \<noteq> p" by simp_all
      from cS ok have "on_board b (target b dx dy c)"
        by (auto simp: can_slide_def intro: target_on_board [OF r])
      with np have "target b dx dy c \<notin> ?S" by (simp add: set_locations)
      with cS show ?thesis by blast
    qed
    from entered_cells(2) [OF wf ok] eq mem [OF c1] mem [OF c2]
    have "target b dx dy c1 = target b dx dy c2" by (rule inj_onD)
    with target_inj_locations [of b dx dy p] c1 c2 show "c1 = c2"
      by (auto dest: inj_onD)
  qed
  then have "distinct (map ?g ?A)"
    by (simp add: distinct_map distinct_locations)
  moreover have "set (map ?g ?A) = set (holes_of so b p dx dy)"
    by (auto simp: set_holes_of)
  ultimately show ?thesis
    unfolding fm using distinct_holes_of [of so b p dx dy]
    by (simp only: set_eq_iff_mset_eq_distinct [symmetric])
qed

lemma count_as_filter: "count (mset xs) x = length (filter (\<lambda>t. t = x) xs)"
  by (induction xs) auto

lemma mset_moved_board:
  assumes wf: "wf_board b"
    and ok: "\<forall>c \<in> set (locations b p). can_slide b p dx dy c"
    and len: "length (vacated_by so b p dx dy) = length (holes_of so b p dx dy)"
  shows "mset (concat (moved so b p dx dy)) = mset (concat b)"
proof (rule multiset_eqI)
  fix q
  let ?ts = "map (\<lambda>c. cell_at b (target b dx dy c)) (locations b p)"
  let ?hs = "holes_of so b p dx dy"
  let ?k = "length (locations b p)"
  have e1: "count (mset (concat (slid b p dx dy))) q + count (mset ?ts) q
      = count (mset (concat b)) q + (if q = p then ?k else 0)"
    using arg_cong [OF mset_slid [OF wf ok], of "\<lambda>M. count M q"] by simp
  have e2: "count (mset (concat (moved so b p dx dy))) q + (if q = p then length ?hs else 0)
      = count (mset (concat (slid b p dx dy))) q + count (mset ?hs) q"
    using arg_cong [OF mset_moved [OF wf ok len], of "\<lambda>M. count M q"] by simp
  have np: "count (mset ?ts) q = count (mset ?hs) q" if "q \<noteq> p"
    using arg_cong [OF displaced_contents [OF wf ok, of so], of "\<lambda>M. count M q"] that
    by simp
  have "size (mset (filter (\<lambda>t. t \<noteq> p) ?ts)) = size (mset ?hs)"
    by (simp only: displaced_contents [OF wf ok, of so])
  then have sz: "length (filter (\<lambda>t. t \<noteq> p) ?ts) = length ?hs"
    by (simp only: size_mset)
  have "length (filter (\<lambda>t. t = p) ?ts) + length (filter (\<lambda>t. \<not> t = p) ?ts) = length ?ts"
    by (rule sum_length_filter_compl)
  then have cp: "count (mset ?ts) p + length ?hs = ?k"
    by (simp only: sz count_as_filter length_map)
  show "count (mset (concat (moved so b p dx dy))) q = count (mset (concat b)) q"
  proof (cases "q = p")
    case True
    have "p \<notin> set ?hs" by (simp add: set_holes_of)
    then have "count (mset ?hs) p = 0" by simp
    with e1 e2 cp True show ?thesis by simp
  next
    case False
    with e1 e2 np show ?thesis by simp
  qed
qed

lemma same_cells_wf:
  assumes "wf_board b" and "map length b' = map length b"
    and "mset (concat b') = mset (concat b)"
  shows "wf_board b'"
proof -
  from assms(1) have r: "rect b" by (simp add: wf_board_def)
  have "count_list (concat b') q = count_list (concat b) q" for q
    using arg_cong [OF assms(3), of "\<lambda>M. count M q"] by (simp add: count_mset)
  moreover have "set (concat b') = set (concat b)"
    using arg_cong [OF assms(3), of set_mset] by simp
  ultimately show ?thesis
    using assms(1) same_shape_rect(1) [OF r assms(2)] by (simp add: wf_board_def)
qed

lemma move_piece_preserves:
  assumes wf: "wf_board b" and mv: "move_piece so b (p, dx, dy) None = Inr (Some b2)"
  shows "mset (concat b2) = mset (concat b)" and "map length b2 = map length b"
    and "wf_board b2"
proof -
  note facts = move_piece_Some_imp [OF wf mv]
  show m: "mset (concat b2) = mset (concat b)"
    unfolding facts(4) by (rule mset_moved_board [OF wf facts(2,3)])
  show s: "map length b2 = map length b"
    unfolding facts(4) by (rule map_length_moved)
  show "wf_board b2" by (rule same_cells_wf [OF wf s m])
qed

section \<open>Moves inside the grid\<close>

lemma target_in_grid: "on_board b (shift dx dy c) \<Longrightarrow> target b dx dy c = shift dx dy c"
  by (simp add: target_def wrap_id)

lemma targets_in_grid:
  assumes "\<forall>c \<in> set (locations b p). on_board b (shift dx dy c)"
  shows "target b dx dy ` set (locations b p) = shift dx dy ` set (locations b p)"
  using assms by (auto simp: target_in_grid intro!: image_eqI)

lemma left_entered_card:
  "card (set (locations b p) - target b dx dy ` set (locations b p))
   = card (target b dx dy ` set (locations b p) - set (locations b p))"
proof -
  let ?S = "set (locations b p)"
  let ?T = "target b dx dy ` ?S"
  have "card (?S - ?T) = card ?S - card (?S \<inter> ?T)"
    by (rule card_Diff_subset_Int) simp
  also have "card ?S = card ?T"
    by (rule card_image [OF target_inj_locations, symmetric])
  also have "?S \<inter> ?T = ?T \<inter> ?S" by blast
  also have "card ?T - card (?T \<inter> ?S) = card (?T - ?S)"
    by (rule card_Diff_subset_Int [symmetric]) simp
  finally show ?thesis .
qed

lemma in_grid_lengths:
  assumes wf: "wf_board b"
    and ok: "\<forall>c \<in> set (locations b p). can_slide b p dx dy c"
    and ig: "\<forall>c \<in> set (locations b p). on_board b (shift dx dy c)"
  shows "length (vacated_by so b p dx dy) = length (holes_of so b p dx dy)"
proof -
  let ?S = "set (locations b p)"
  let ?T = "target b dx dy ` ?S"
  have "length (vacated_by so b p dx dy) = card (set (vacated_by so b p dx dy))"
    by (simp add: distinct_card distinct_vacated_by)
  also have "set (vacated_by so b p dx dy) = ?S - ?T"
    by (simp only: set_vacated_by targets_in_grid [OF ig])
  also have "card (?S - ?T) = card (?T - ?S)" by (rule left_entered_card)
  also have "\<dots> = card (cell_at b ` (?T - ?S))"
    by (rule card_image [OF entered_cells(2) [OF wf ok], symmetric])
  also have "\<dots> = card (set (holes_of so b p dx dy))"
    by (simp only: entered_cells(1) [OF wf ok])
  also have "\<dots> = length (holes_of so b p dx dy)"
    by (simp add: distinct_card distinct_holes_of)
  finally show ?thesis .
qed

lemma can_slide_in_grid:
  assumes "on_board b (shift dx dy c)"
  shows "can_slide b p dx dy c \<longleftrightarrow> cell_at b (shift dx dy c) \<in> {''_1'', ''_2'', p}"
  using assms by (simp add: can_slide_def target_in_grid on_board_indexable allowed_def)

lemma move_piece_in_grid:
  assumes wf: "wf_board b" and ne: "locations b p \<noteq> []"
    and ig: "\<forall>c \<in> set (locations b p). on_board b (shift dx dy c)"
  shows "move_piece so b (p, dx, dy) None =
     (if \<forall>c \<in> set (locations b p). cell_at b (shift dx dy c) \<in> {''_1'', ''_2'', p}
      then Inr (Some (moved so b p dx dy)) else Inr None)"
proof (cases "\<forall>c \<in> set (locations b p). cell_at b (shift dx dy c) \<in> {''_1'', ''_2'', p}")
  case True
  with ig have ok: "\<forall>c \<in> set (locations b p). can_slide b p dx dy c"
    by (simp add: can_slide_in_grid)
  from move_piece_result [OF wf ne ok, of so] in_grid_lengths [OF wf ok ig, of so] True
  show ?thesis by simp
next
  case False
  from wf have r: "rect b" by (simp add: wf_board_def)
  have on: "\<forall>c \<in> set (locations b p). on_board b c" by (simp add: locations_on_board)
  have ix: "\<forall>c \<in> set (locations b p). indexable b (shift dx dy c)"
    using ig by (simp add: on_board_indexable)
  from False ig have bl: "\<exists>c \<in> set (locations b p). \<not> allowed p (cell_at b (target b dx dy c))"
    by (auto simp: target_in_grid allowed_def)
  have "slide b p dx dy (locations b p) [] b = Inr None"
    by (rule slide_blocked [OF r refl on ix bl])
  with False show ?thesis by (simp add: move_piece_unfold [OF r ne])
qed

section \<open>Undoing a move inside the grid\<close>

lemma boards_agree:
  assumes r: "rect b" and sh: "map length b' = map length b"
    and eq: "\<And>c. on_board b c \<Longrightarrow> f (cell_at b' c) = f (cell_at b c)"
  shows "map (map f) b' = map (map f) b"
proof (rule nth_equalityI)
  from sh have len: "length b' = length b" by (metis length_map)
  then show "length (map (map f) b') = length (map (map f) b)" by simp
  fix i assume "i < length (map (map f) b')"
  with len have i: "i < length b" by simp
  have rl: "length (b ! i) = length (hd b)" by (rule rect_row_length [OF r i])
  from sh i len have rl': "length (b' ! i) = length (b ! i)" by (metis nth_map)
  have "map f (b' ! i) = map f (b ! i)"
  proof (rule nth_equalityI)
    show "length (map f (b' ! i)) = length (map f (b ! i))" using rl' by simp
    fix j assume "j < length (map f (b' ! i))"
    with rl rl' have j: "j < length (hd b)" by simp
    with i have "on_board b (int i, int j)" by (simp add: on_board_def)
    from eq [OF this] have "f (b' ! i ! j) = f (b ! i ! j)" by (simp add: cell_at_def)
    with j rl rl' show "map f (b' ! i) ! j = map f (b ! i) ! j" by simp
  qed
  with i len show "map (map f) b' ! i = map (map f) b ! i" by simp
qed

lemma boards_equal:
  assumes "rect b" and "map length b' = map length b"
    and "\<And>c. on_board b c \<Longrightarrow> cell_at b' c = cell_at b c"
  shows "b' = b"
  using boards_agree [OF assms(1,2), of "\<lambda>q. q"] assms(3) by simp

lemma holes_are_holes:
  assumes ok: "\<forall>c \<in> set (locations b p). can_slide b p dx dy c"
    and h: "h \<in> set (holes_of so b p dx dy)"
  shows "h \<noteq> p" and "h = ''_1'' \<or> h = ''_2''"
proof -
  from h show "h \<noteq> p" by (simp add: set_holes_of)
  from h obtain c where "c \<in> set (locations b p)" and "h = cell_at b (target b dx dy c)"
    by (auto simp: set_holes_of)
  with ok have "allowed p h" by (simp add: can_slide_def)
  with \<open>h \<noteq> p\<close> show "h = ''_1'' \<or> h = ''_2''" by (simp add: allowed_def)
qed

lemma refilled_cell:
  assumes len: "length (vacated_by so b p dx dy) = length (holes_of so b p dx dy)"
  shows "c \<in> set (vacated_by so b p dx dy) \<Longrightarrow>
           \<exists>h \<in> set (holes_of so b p dx dy).
             map_of (zip (vacated_by so b p dx dy) (holes_of so b p dx dy)) c = Some h"
    and "c \<notin> set (vacated_by so b p dx dy) \<Longrightarrow>
           map_of (zip (vacated_by so b p dx dy) (holes_of so b p dx dy)) c = None"
proof -
  let ?V = "vacated_by so b p dx dy" and ?H = "holes_of so b p dx dy"
  assume "c \<in> set ?V"
  with map_of_zip_is_Some [OF len] obtain h where h: "map_of (zip ?V ?H) c = Some h"
    by blast
  then have "(c, h) \<in> set (zip ?V ?H)" by (rule map_of_SomeD)
  then have "h \<in> set ?H" by (rule set_zip_rightD)
  with h show "\<exists>h \<in> set ?H. map_of (zip ?V ?H) c = Some h" by blast
next
  let ?V = "vacated_by so b p dx dy" and ?H = "holes_of so b p dx dy"
  assume "c \<notin> set ?V"
  with map_of_zip_is_Some [OF len, of c] show "map_of (zip ?V ?H) c = None" by auto
qed

lemma cells_after_move:
  assumes wf: "wf_board b"
    and ok: "\<forall>c \<in> set (locations b p). can_slide b p dx dy c"
    and len: "length (vacated_by so b p dx dy) = length (holes_of so b p dx dy)"
    and c: "on_board b c"
  shows "c \<in> target b dx dy ` set (locations b p) \<Longrightarrow> cell_at (moved so b p dx dy) c = p"
    and "c \<in> set (locations b p) \<Longrightarrow> c \<notin> target b dx dy ` set (locations b p) \<Longrightarrow>
           cell_at (moved so b p dx dy) c \<in> set (holes_of so b p dx dy)"
    and "c \<notin> set (locations b p) \<Longrightarrow> c \<notin> target b dx dy ` set (locations b p) \<Longrightarrow>
           cell_at (moved so b p dx dy) c = cell_at b c"
proof -
  let ?S = "set (locations b p)"
  let ?T = "target b dx dy ` ?S"
  have V: "set (vacated_by so b p dx dy) = ?S - ?T"
    by (rule vacated_exact(1) [OF wf ok]) (simp add: len)
  note cm = cell_at_moved [OF wf ok len c]
  show "cell_at (moved so b p dx dy) c = p" if "c \<in> ?T"
    using that refilled_cell(2) [OF len, of c] V by (simp add: cm)
  show "cell_at (moved so b p dx dy) c \<in> set (holes_of so b p dx dy)"
    if "c \<in> ?S" "c \<notin> ?T"
    using that refilled_cell(1) [OF len, of c] V by (auto simp: cm)
  show "cell_at (moved so b p dx dy) c = cell_at b c" if "c \<notin> ?S" "c \<notin> ?T"
    using that refilled_cell(2) [OF len, of c] V by (simp add: cm)
qed

lemma locations_after_move:
  assumes wf: "wf_board b"
    and ok: "\<forall>c \<in> set (locations b p). can_slide b p dx dy c"
    and len: "length (vacated_by so b p dx dy) = length (holes_of so b p dx dy)"
  shows "set (locations (moved so b p dx dy) p) = target b dx dy ` set (locations b p)"
proof -
  let ?S = "set (locations b p)"
  let ?T = "target b dx dy ` ?S"
  let ?b2 = "moved so b p dx dy"
  from wf have r: "rect b" by (simp add: wf_board_def)
  have ob: "on_board ?b2 = on_board b"
    by (rule same_shape_on_board [OF map_length_moved r])
  have T_on: "on_board b t" if "t \<in> ?T" for t
    using that ok by (auto simp: can_slide_def intro: target_on_board [OF r])
  have mem: "c \<in> set (locations ?b2 p) \<longleftrightarrow> on_board b c \<and> cell_at ?b2 c = p" for c
    unfolding set_locations ob by simp
  show ?thesis
  proof (rule set_eqI)
    fix c
    show "c \<in> set (locations ?b2 p) \<longleftrightarrow> c \<in> ?T"
    proof (cases "on_board b c")
      case False
      then have "c \<notin> set (locations ?b2 p)" by (simp only: mem simp_thms)
      moreover have "c \<notin> ?T" using False T_on by blast
      ultimately show ?thesis by simp
    next
      case True
      note cs = cells_after_move [OF wf ok len True]
      show ?thesis
      proof (cases "c \<in> ?T")
        case T: True
        from cs(1) [OF T] True have "c \<in> set (locations ?b2 p)" by (simp only: mem simp_thms)
        with T show ?thesis by simp
      next
        case nT: False
        have "cell_at ?b2 c \<noteq> p"
        proof (cases "c \<in> ?S")
          case S: True
          from cs(2) [OF S nT] holes_are_holes(1) [OF ok] show ?thesis by blast
        next
          case nS: False
          with True have "cell_at b c \<noteq> p" by (simp add: set_locations)
          with cs(3) [OF nS nT] show ?thesis by simp
        qed
        then have "c \<notin> set (locations ?b2 p)" by (simp only: mem simp_thms)
        with nT show ?thesis by simp
      qed
    qed
  qed
qed

lemma shift_back: "shift (- dx) (- dy) (shift dx dy c) = c"
  by (simp add: shift_def)

lemma shift_back_image: "shift (- dx) (- dy) ` shift dx dy ` A = A"
  by (simp add: image_image shift_back)

lemma move_back:
  assumes wf: "wf_board b" and mv: "move_piece so b (p, dx, dy) None = Inr (Some b2)"
    and ig: "\<forall>c \<in> set (locations b p). on_board b (shift dx dy c)"
  shows "\<exists>b3. move_piece so b2 (p, - dx, - dy) None = Inr (Some b3)
           \<and> map (map unhole) b3 = map (map unhole) b
           \<and> (length (vacated_by so b p dx dy) \<le> 1 \<longrightarrow> b3 = b)"
proof -
  let ?S = "set (locations b p)"
  let ?T = "shift dx dy ` ?S"
  note f = move_piece_Some_imp [OF wf mv]
  note ok = f(2) and len = f(3) and b2 = f(4)
  from wf have r: "rect b" by (simp add: wf_board_def)
  have tg: "target b dx dy ` ?S = ?T" by (rule targets_in_grid [OF ig])
  have wf2: "wf_board b2" by (rule move_piece_preserves(3) [OF wf mv])
  have sh2: "map length b2 = map length b" by (rule move_piece_preserves(2) [OF wf mv])
  have ob2: "on_board b2 = on_board b" by (rule same_shape_on_board [OF sh2 r])
  have S_on: "on_board b s" if "s \<in> ?S" for s using that by (rule locations_on_board)
  have T_on: "on_board b t" if "t \<in> ?T" for t using that ig by auto
  note cs = cells_after_move [OF wf ok len, unfolded tg, folded b2]
  have loc2: "set (locations b2 p) = ?T"
    unfolding b2 by (simp only: locations_after_move [OF wf ok len] tg)
  from f(1) have "?S \<noteq> {}" by simp
  then have ne2: "locations b2 p \<noteq> []" using loc2 by auto
  have bk: "shift (- dx) (- dy) ` ?T = ?S" by (rule shift_back_image)
  have ig2: "\<forall>c \<in> set (locations b2 p). on_board b2 (shift (- dx) (- dy) c)"
    unfolding loc2 ob2 by (auto simp: shift_back intro: S_on)
  have S_cell: "cell_at b2 s \<in> {''_1'', ''_2'', p}" if "s \<in> ?S" for s
  proof (cases "s \<in> ?T")
    case True
    from cs(1) [OF S_on [OF that] True] show ?thesis by simp
  next
    case False
    from cs(2) [OF S_on [OF that] that False] holes_are_holes(2) [OF ok] show ?thesis
      by blast
  qed
  have free2: "\<forall>c \<in> set (locations b2 p).
      cell_at b2 (shift (- dx) (- dy) c) \<in> {''_1'', ''_2'', p}"
  proof
    fix c assume "c \<in> set (locations b2 p)"
    then obtain s where s: "s \<in> ?S" and c: "c = shift dx dy s" unfolding loc2 by blast
    from S_cell [OF s] show "cell_at b2 (shift (- dx) (- dy) c) \<in> {''_1'', ''_2'', p}"
      unfolding c shift_back .
  qed
  let ?b3 = "moved so b2 p (- dx) (- dy)"
  have mv2: "move_piece so b2 (p, - dx, - dy) None = Inr (Some ?b3)"
    unfolding move_piece_in_grid [OF wf2 ne2 ig2] using free2 by simp
  note f2 = move_piece_Some_imp [OF wf2 mv2]
  note ok2 = f2(2) and len2 = f2(3)
  have "target b2 (- dx) (- dy) ` set (locations b2 p)
      = shift (- dx) (- dy) ` set (locations b2 p)"
    by (rule targets_in_grid [OF ig2])
  also have "\<dots> = ?S" unfolding loc2 by (rule bk)
  finally have "target b2 (- dx) (- dy) ` set (locations b2 p) = ?S" .
  then have tg2: "target b2 (- dx) (- dy) ` ?T = ?S" by (simp only: loc2)
  note cs2 = cells_after_move [OF wf2 ok2 len2, unfolded loc2 tg2 ob2]
  have e2: "set (holes_of so b2 p (- dx) (- dy)) = cell_at b2 ` (?S - ?T)"
    using entered_cells(1) [OF wf2 ok2, of so] by (simp only: loc2 tg2)
  have e1: "set (holes_of so b p dx dy) = cell_at b ` (?T - ?S)"
    using entered_cells(1) [OF wf ok, of so] by (simp only: tg)
  have sh3: "map length ?b3 = map length b"
    using move_piece_preserves(2) [OF wf2 mv2] sh2 by simp
  have holes2: "set (holes_of so b2 p (- dx) (- dy)) \<subseteq> cell_at b ` (?T - ?S)"
  proof
    fix h assume "h \<in> set (holes_of so b2 p (- dx) (- dy))"
    then obtain s where s: "s \<in> ?S - ?T" and h: "h = cell_at b2 s"
      unfolding e2 by blast
    from s have sS: "s \<in> ?S" and sT: "s \<notin> ?T" by simp_all
    from cs(2) [OF S_on [OF sS] sS sT] have "cell_at b2 s \<in> set (holes_of so b p dx dy)" .
    then show "h \<in> cell_at b ` (?T - ?S)"
      unfolding h e1 .
  qed
  have inS: "cell_at ?b3 c = cell_at b c" if "c \<in> ?S" for c
    using cs2(1) [OF S_on [OF that] that] that by (simp add: locations_cell)
  have outside: "cell_at ?b3 c = cell_at b c" if "on_board b c" "c \<notin> ?S" "c \<notin> ?T" for c
    using cs2(3) [OF that(1) that(3) that(2)] cs(3) [OF that] by simp
  have entered: "cell_at ?b3 c \<in> cell_at b ` (?T - ?S)" if "c \<in> ?T" "c \<notin> ?S" for c
    using cs2(2) [OF T_on [OF that(1)] that] holes2 by blast
  have hole_id: "q = ''_1'' \<or> q = ''_2''" if "q \<in> cell_at b ` (?T - ?S)" for q
    using that holes_are_holes(2) [OF ok, of q so] unfolding e1 by simp
  have blind: "unhole (cell_at ?b3 c) = unhole (cell_at b c)" if c: "on_board b c" for c
  proof (cases "c \<in> ?S")
    case True
    then show ?thesis by (simp add: inS)
  next
    case nS: False
    show ?thesis
    proof (cases "c \<in> ?T")
      case True
      from hole_id [OF entered [OF True nS]] have "unhole (cell_at ?b3 c) = ''_1''"
        by (auto simp: unhole_def)
      moreover from True nS have "cell_at b c \<in> cell_at b ` (?T - ?S)" by blast
      from hole_id [OF this] have "unhole (cell_at b c) = ''_1''"
        by (auto simp: unhole_def)
      ultimately show ?thesis by simp
    next
      case False
      with outside [OF c nS] show ?thesis by simp
    qed
  qed
  have exact: "?b3 = b" if one: "length (vacated_by so b p dx dy) \<le> 1"
  proof (rule boards_equal [OF r sh3])
    fix c assume c: "on_board b c"
    have "card (?T - ?S) = card (?S - ?T)"
      using left_entered_card [of b p dx dy] unfolding tg by simp
    also have "?S - ?T = set (vacated_by so b p dx dy)" by (simp only: set_vacated_by)
    also have "card \<dots> = length (vacated_by so b p dx dy)"
      by (simp add: distinct_card distinct_vacated_by)
    finally have le: "card (?T - ?S) \<le> Suc 0" using one by simp
    have fin: "finite (?T - ?S)" by simp
    from card_le_Suc0_iff_eq [OF fin] le
    have all: "\<forall>a1 \<in> ?T - ?S. \<forall>a2 \<in> ?T - ?S. a1 = a2" by blast
    have uniq: "c1 = c2" if "c1 \<in> ?T - ?S" "c2 \<in> ?T - ?S" for c1 c2
      using all that by blast
    show "cell_at ?b3 c = cell_at b c"
    proof (cases "c \<in> ?S")
      case True
      then show ?thesis by (rule inS)
    next
      case nS: False
      show ?thesis
      proof (cases "c \<in> ?T")
        case True
        from entered [OF True nS] obtain c' where c': "c' \<in> ?T - ?S"
          and eq: "cell_at ?b3 c = cell_at b c'" by blast
        from True nS have "c \<in> ?T - ?S" by blast
        from uniq [OF c' this] eq show ?thesis by simp
      next
        case False
        with outside [OF c nS] show ?thesis by simp
      qed
    qed
  qed
  have "map (map unhole) ?b3 = map (map unhole) b"
    by (rule boards_agree [OF r sh3 blind])
  with mv2 exact show ?thesis by blast
qed

section \<open>Successors are moves\<close>

lemma move_piece_cache:
  assumes "rect b" and "locations b p \<noteq> []"
  shows "move_piece so b (p, dx, dy) (Some (locations b p)) = move_piece so b (p, dx, dy) None"
  by (simp add: move_piece_def old_location_cache [OF assms])

lemma try_moves_sound:
  assumes r: "rect b"
    and pos: "pos = (\<lambda>p. if locations b p = [] then None else Some (locations b p))"
    and mem: "Inr (b', mv) \<in> set (try_moves so b pos cands)"
  shows "move_piece so b mv None = Inr (Some b')
         \<and> (\<exists>p c. c \<in> set cands \<and> mv = (p, - fst (snd c), - snd (snd c)))"
  using mem
proof (induction cands)
  case Nil
  then show ?case by simp
next
  case (Cons cand cands)
  obtain h d where cand: "cand = (h, d)" by (cases cand)
  let ?t = "shift (fst d) (snd d) h"
  have lift: ?case if "Inr (b', mv) \<in> set (try_moves so b pos cands)"
  proof -
    from Cons.IH [OF that] obtain p c
      where mp: "move_piece so b mv None = Inr (Some b')" and c: "c \<in> set cands"
        and m: "mv = (p, - fst (snd c), - snd (snd c))"
      by blast
    from c have "c \<in> set (cand # cands)" by simp
    with mp m show ?thesis by blast
  qed
  show ?case
  proof (cases "0 \<le> fst ?t \<and> fst ?t < int (length b) \<and> 0 \<le> snd ?t \<and> snd ?t < int (length (hd b))")
    case False
    with Cons.prems cand have "Inr (b', mv) \<in> set (try_moves so b pos cands)"
      by (simp add: Let_def)
    then show ?thesis by (rule lift)
  next
    case True
    then have ont: "on_board b ?t" by (simp add: on_board_def)
    then have g: "board_get b ?t = Inr (cell_at b ?t)"
      by (simp add: board_get_rect [OF r] on_board_indexable wrap_id)
    let ?p = "cell_at b ?t"
    from ont have "?t \<in> set (locations b ?p)" by (simp add: set_locations)
    then have ne: "locations b ?p \<noteq> []" by auto
    then have posp: "pos ?p = Some (locations b ?p)" by (simp add: pos)
    let ?m = "move_piece so b (?p, - fst d, - snd d) (Some (locations b ?p))"
    have step: "try_moves so b pos (cand # cands) =
        (case ?m of Inl e \<Rightarrow> [Inl e]
         | Inr None \<Rightarrow> try_moves so b pos cands
         | Inr (Some nboard) \<Rightarrow>
             if nboard \<noteq> [] then Inr (nboard, (?p, - fst d, - snd d)) # try_moves so b pos cands
             else try_moves so b pos cands)"
      using True by (simp add: cand Let_def g posp)
    show ?thesis
    proof (cases "Inr (b', mv) \<in> set (try_moves so b pos cands)")
      case True
      then show ?thesis by (rule lift)
    next
      case False
      with Cons.prems have "?m = Inr (Some b')" and "mv = (?p, - fst d, - snd d)"
        unfolding step by (auto split: sum.splits option.splits if_splits)
      with move_piece_cache [OF r ne, of so "- fst d" "- snd d"] cand
      have "move_piece so b mv None = Inr (Some b')"
        and "cand \<in> set (cand # cands) \<and> mv = (?p, - fst (snd cand), - snd (snd cand))"
        by simp_all
      then show ?thesis by blast
    qed
  qed
qed

lemma possible_moves_sound:
  assumes r: "rect b" and mem: "Inr (b', mv) \<in> set (possible_moves so b)"
  shows "move_piece so b mv None = Inr (Some b')"
    and "\<exists>p d. d \<in> set directions \<and> mv = (p, - fst d, - snd d)"
proof -
  let ?pos = "\<lambda>p. if locations b p = [] then None else Some (locations b p)"
  let ?cands = "List.product [hd (locations b ''_1''), hd (locations b ''_2'')] directions"
  have c: "snd c \<in> set directions" if "c \<in> set ?cands" for c
    using that by auto
  from mem have "Inr (b', mv) \<in> set (try_moves so b ?pos ?cands)"
    unfolding possible_moves_def piece_locations_rect [OF r]
    by (simp split: option.splits if_splits)
  from try_moves_sound [OF r refl this] c
  show "move_piece so b mv None = Inr (Some b')"
    and "\<exists>p d. d \<in> set directions \<and> mv = (p, - fst d, - snd d)"
    by auto
qed

lemma hole_count_wf: "wf_board b \<Longrightarrow> hole_count b = 2"
proof -
  have "length (filter (\<lambda>q. q = x \<or> q = y) xs) = count_list xs x + count_list xs y"
    if "x \<noteq> y" for x y :: piece and xs
    using that by (induction xs) auto
  then show "wf_board b \<Longrightarrow> hole_count b = 2"
    by (simp add: hole_count_def wf_board_def)
qed

lemma reachable_wf:
  assumes "wf_board b0" and "reachable so b0 b"
  shows "wf_board b"
  using assms(2)
proof (induction rule: reachable.induct)
  case start
  show ?case by (rule assms(1))
next
  case (by_move b mv b')
  obtain p dx dy where "mv = (p, dx, dy)" by (cases mv)
  with by_move show ?case by (auto intro: move_piece_preserves(3))
next
  case (by_successor b b' mv)
  from by_successor.IH have r: "rect b" by (simp add: wf_board_def)
  obtain p dx dy where mv: "mv = (p, dx, dy)" by (cases mv)
  from possible_moves_sound(1) [OF r by_successor.hyps(2)] mv
  have "move_piece so b (p, dx, dy) None = Inr (Some b')" by simp
  with by_successor.IH show ?case by (rule move_piece_preserves(3))
qed

section \<open>The claims about move\_piece\<close>

text \<open>
  C10. When \<^verbatim>\<open>move_piece\<close> succeeds on a well-formed board, the board it returns has
  the rows of the input board, cell for cell, and every identifier occupies as many
  cells as before: the cells of the two boards are equal as multisets. As many holes
  were displaced as cells were vacated, so every vacated cell received an identifier
  and no \<^verbatim>\<open>pop\<close> met an empty set. The input board is a value of the model, as it is an
  immutable tuple in the code (the writes go to the copy \<^verbatim>\<open>new_board\<close>). This holds
  for every displacement, also one that Python's negative indices wrap around.
\<close>

theorem move_piece_keeps_pieces:
  assumes "wf_board b" and "move_piece so b (p, dx, dy) None = Inr (Some b2)"
  shows "mset (concat b2) = mset (concat b) \<and> map length b2 = map length b
         \<and> length (vacated_by so b p dx dy) = length (holes_of so b p dx dy)"
  using move_piece_preserves(1,2) [OF assms] move_piece_Some_imp(3) [OF assms] by simp

theorem move_piece_keeps_pieces_witness:
  "wf_board start_board
   \<and> move_piece scan_order start_board (''g2'', 0, 1) None = Inr (Some g2_moved_board)
   \<and> mset (concat g2_moved_board) = mset (concat start_board)
   \<and> map length g2_moved_board = map length start_board
   \<and> length (vacated_by scan_order start_board ''g2'' 0 1)
       = length (holes_of scan_order start_board ''g2'' 0 1)"
proof -
  have wf: "wf_board start_board" by code_simp
  have mv: "move_piece scan_order start_board (''g2'', 0, 1) None = Inr (Some g2_moved_board)"
    by code_simp
  from move_piece_keeps_pieces [OF wf mv] wf mv show ?thesis by simp
qed

text \<open>
  C8. Every board reachable from a well-formed board, by successful calls of
  \<^verbatim>\<open>move_piece\<close> or as successors yielded by \<^verbatim>\<open>possible_moves\<close>, has exactly two
  cells that hold a hole identifier.
\<close>

theorem holes_stay_two:
  assumes "wf_board b0" and "reachable so b0 b"
  shows "hole_count b = 2"
  using reachable_wf [OF assms] by (rule hole_count_wf)

theorem holes_stay_two_witness:
  "wf_board start_board \<and> reachable scan_order start_board g2_moved_board
   \<and> hole_count g2_moved_board = 2"
proof -
  have wf: "wf_board start_board" by code_simp
  have mv: "move_piece scan_order start_board (''g2'', 0, 1) None = Inr (Some g2_moved_board)"
    by code_simp
  have re: "reachable scan_order start_board g2_moved_board"
    by (rule reachable.by_move [OF reachable.start mv])
  from holes_stay_two [OF wf re] wf re show ?thesis by simp
qed

text \<open>
  C4 (amended). \<^verbatim>\<open>move_piece\<close> has no bounds check; the caller \<^verbatim>\<open>possible_moves\<close>
  has one. For a well-formed board, a piece on it and a displacement that keeps every
  cell of the piece inside the grid: \<^verbatim>\<open>move_piece\<close> returns \<^verbatim>\<open>None\<close> exactly when
  some displaced cell holds an identifier that is neither a hole nor the piece itself,
  and returns a board exactly when no displaced cell does.
\<close>

theorem move_piece_in_grid_fails_iff_blocked:
  assumes "wf_board b" and "locations b p \<noteq> []"
    and "\<forall>c \<in> set (locations b p). on_board b (shift dx dy c)"
  shows "(move_piece so b (p, dx, dy) None = Inr None
          \<longleftrightarrow> (\<exists>c \<in> set (locations b p). cell_at b (shift dx dy c) \<notin> {''_1'', ''_2'', p}))
       \<and> ((\<exists>b2. move_piece so b (p, dx, dy) None = Inr (Some b2))
          \<longleftrightarrow> (\<forall>c \<in> set (locations b p). cell_at b (shift dx dy c) \<in> {''_1'', ''_2'', p}))"
  unfolding move_piece_in_grid [OF assms] by auto

theorem move_piece_in_grid_fails_iff_blocked_witness:
  "move_piece scan_order start_board (''r'', -1, 0) None = Inr None
   \<and> (\<exists>c \<in> set (locations start_board ''r'').
         cell_at start_board (shift (-1) 0 c) \<notin> {''_1'', ''_2'', ''r''})
   \<and> (\<exists>b2. move_piece scan_order start_board (''g2'', 0, 1) None = Inr (Some b2))"
proof -
  have wf: "wf_board start_board" by code_simp
  have ne1: "locations start_board ''r'' \<noteq> []" by code_simp
  have ig1: "\<forall>c \<in> set (locations start_board ''r''). on_board start_board (shift (-1) 0 c)"
    by code_simp
  have bl: "\<exists>c \<in> set (locations start_board ''r'').
         cell_at start_board (shift (-1) 0 c) \<notin> {''_1'', ''_2'', ''r''}"
    by code_simp
  have ne2: "locations start_board ''g2'' \<noteq> []" by code_simp
  have ig2: "\<forall>c \<in> set (locations start_board ''g2''). on_board start_board (shift 0 1 c)"
    by code_simp
  have fr: "\<forall>c \<in> set (locations start_board ''g2'').
         cell_at start_board (shift 0 1 c) \<in> {''_1'', ''_2'', ''g2''}"
    by code_simp
  from move_piece_in_grid_fails_iff_blocked [OF wf ne1 ig1, of scan_order] bl
    move_piece_in_grid_fails_iff_blocked [OF wf ne2 ig2, of scan_order] fr
  show ?thesis by simp
qed

text \<open>
  C4 as stated fails for displaced cells outside the grid. \<^verbatim>\<open>('w5', 1, 0)\<close> on the
  start board reads row 4 of a board of 4 rows and raises \<^verbatim>\<open>IndexError\<close>;
  \<^verbatim>\<open>('w1', 0, -1)\<close> reads column \<open>-1\<close>, which is the last column and holds a hole,
  and returns a board with \<^verbatim>\<open>w1\<close> in the first and the last column.
\<close>

theorem move_piece_out_of_grid_counterexample:
  "(3, 0) \<in> set (locations start_board ''w5'')
   \<and> \<not> on_board start_board (shift 1 0 (3, 0))
   \<and> move_piece scan_order start_board (''w5'', 1, 0) None = Inl IndexError
   \<and> (0, 0) \<in> set (locations start_board ''w1'')
   \<and> \<not> on_board start_board (shift 0 (-1) (0, 0))
   \<and> move_piece scan_order start_board (''w1'', 0, -1) None = Inr (Some w1_wrapped_board)"
  by code_simp

text \<open>
  C3 (amended). On a well-formed board, let \<^verbatim>\<open>move_piece(B, (p, dx, dy))\<close> succeed with
  \<open>B2\<close>, every displaced cell of \<open>p\<close> lying inside the grid. Then
  \<^verbatim>\<open>move_piece(B2, (p, -dx, -dy))\<close> succeeds, and its result is \<open>B\<close> up to which of the
  two hole identifiers occupies which hole cell. It is \<open>B\<close> itself when the move vacates
  at most one cell. When two cells are vacated, which hole goes where is decided by the
  order in which Python walks a set, in both directions.
\<close>

theorem move_piece_reversible_in_grid:
  assumes "wf_board b" and "move_piece so b (p, dx, dy) None = Inr (Some b2)"
    and "\<forall>c \<in> set (locations b p). on_board b (shift dx dy c)"
  shows "\<exists>b3. move_piece so b2 (p, - dx, - dy) None = Inr (Some b3)
           \<and> map (map unhole) b3 = map (map unhole) b
           \<and> (length (vacated_by so b p dx dy) \<le> 1 \<longrightarrow> b3 = b)"
  using assms by (rule move_back)

theorem move_piece_reversible_in_grid_witness:
  "wf_board start_board
   \<and> move_piece scan_order start_board (''g2'', 0, 1) None = Inr (Some g2_moved_board)
   \<and> (\<forall>c \<in> set (locations start_board ''g2''). on_board start_board (shift 0 1 c))
   \<and> length (vacated_by scan_order start_board ''g2'' 0 1) \<le> 1
   \<and> move_piece scan_order g2_moved_board (''g2'', 0, -1) None = Inr (Some start_board)"
proof -
  have wf: "wf_board start_board" by code_simp
  have mv: "move_piece scan_order start_board (''g2'', 0, 1) None = Inr (Some g2_moved_board)"
    by code_simp
  have ig: "\<forall>c \<in> set (locations start_board ''g2''). on_board start_board (shift 0 1 c)"
    by code_simp
  have one: "length (vacated_by scan_order start_board ''g2'' 0 1) \<le> 1" by code_simp
  from move_piece_reversible_in_grid [OF wf mv ig] one
  have "move_piece scan_order g2_moved_board (''g2'', - 0, - 1) None = Inr (Some start_board)"
    by auto
  with wf mv ig one show ?thesis by simp
qed

text \<open>
  C3 as stated fails when an index wraps around: \<^verbatim>\<open>('w1', 0, -1)\<close> succeeds on the
  start board, and the opposite move on the result raises \<^verbatim>\<open>IndexError\<close>, since
  column 5 does not exist.
\<close>

theorem move_piece_wrapped_not_reversible_counterexample:
  "wf_board start_board
   \<and> move_piece scan_order start_board (''w1'', 0, -1) None = Inr (Some w1_wrapped_board)
   \<and> move_piece scan_order w1_wrapped_board (''w1'', 0, 1) None = Inl IndexError"
  by code_simp

section \<open>baseform: the canonical form\<close>


lemma set_uniq_ordered: "set (uniq_ordered xs seen) = set xs - seen"
  by (induction xs arbitrary: seen) auto

lemma distinct_uniq_ordered: "distinct (uniq_ordered xs seen)"
  by (induction xs arbitrary: seen) (auto simp: set_uniq_ordered)

lemma uniq_ordered_map:
  "inj_on f (set xs \<union> seen) \<Longrightarrow>
     uniq_ordered (map f xs) (f ` seen) = map f (uniq_ordered xs seen)"
proof (induction xs arbitrary: seen)
  case Nil
  then show ?case by simp
next
  case (Cons x xs)
  have mem: "f x \<in> f ` seen \<longleftrightarrow> x \<in> seen"
    using Cons.prems by (auto simp: inj_on_def)
  have inj1: "inj_on f (set xs \<union> seen)"
    using Cons.prems by (auto simp: inj_on_def)
  have inj2: "inj_on f (set xs \<union> insert x seen)"
    using Cons.prems by (auto simp: inj_on_def)
  show ?case
  proof (cases "x \<in> seen")
    case True
    with mem Cons.IH [OF inj1] show ?thesis by simp
  next
    case False
    have "uniq_ordered (map f xs) (f ` insert x seen) = map f (uniq_ordered xs (insert x seen))"
      by (rule Cons.IH [OF inj2])
    with False mem show ?thesis by simp
  qed
qed

lemma map_of_concat_pick:
  assumes "t0 \<in> set ts" and "p \<in> fst ` set (F t0)"
    and "\<And>t. t \<in> set ts \<Longrightarrow> t \<noteq> t0 \<Longrightarrow> p \<notin> fst ` set (F t)"
  shows "map_of (concat (map F ts)) p = map_of (F t0) p"
  using assms
proof (induction ts)
  case Nil
  then show ?case by simp
next
  case (Cons t ts)
  show ?case
  proof (cases "t = t0")
    case True
    from Cons.prems(2) obtain v where "map_of (F t0) p = Some v"
      by (cases "map_of (F t0) p") (auto simp: map_of_eq_None_iff)
    with True show ?thesis by simp
  next
    case False
    with Cons.prems have none: "map_of (F t) p = None"
      by (simp add: map_of_eq_None_iff)
    from False Cons.prems have "map_of (concat (map F ts)) p = map_of (F t0) p"
      by (intro Cons.IH) auto
    with none show ?thesis by (simp add: map_add_def)
  qed
qed

lemma pmap_nth:
  assumes d: "distinct pieces" and i: "i < length (pgroups pieces t)"
  shows "pmap pieces (pgroups pieces t ! i) = Some (sort (pgroups pieces t) ! i)"
proof -
  let ?g = "pgroups pieces t"
  let ?p = "?g ! i"
  let ?F = "\<lambda>t. zip (pgroups pieces t) (sort (pgroups pieces t))"
  from i have pin: "?p \<in> set ?g" by simp
  then have pP: "?p \<in> set pieces" and hp: "hd ?p = t" by (auto simp: pgroups_def)
  have t_in: "t \<in> set (uniq_ordered (map hd pieces) {})"
    using pP hp by (force simp: set_uniq_ordered)
  have fst_F: "fst ` set (?F t') = set (pgroups pieces t')" for t'
  proof -
    have "map fst (?F t') = pgroups pieces t'" by (rule map_fst_zip) simp
    then show ?thesis by (metis set_map)
  qed
  have other: "?p \<notin> fst ` set (?F t')" if "t' \<noteq> t" for t'
    using that hp unfolding fst_F by (auto simp: pgroups_def)
  have "pmap pieces ?p = map_of (?F t) ?p"
    unfolding pmap_def
    by (rule map_of_concat_pick [OF t_in]) (use pin other in \<open>auto simp: fst_F\<close>)
  also have "\<dots> = Some (sort ?g ! i)"
  proof (rule map_of_zip_nth)
    show "length ?g = length (sort ?g)" by simp
    show "distinct ?g" using d by (simp add: pgroups_def)
    show "i < length (sort ?g)" using i by simp
  qed
  finally show ?thesis .
qed


lemma baseform_relabel:
  "[] \<notin> set (concat b) \<Longrightarrow> baseform b = Inr (map (map (relabel b)) b)"
  by (simp add: baseform_def relabel_def set_uniq_ordered Let_def)

lemma relabel_nth:
  assumes "i < length (pgroups (uniq_ordered (concat b) {}) t)"
  shows "relabel b (pgroups (uniq_ordered (concat b) {}) t ! i)
         = sort (pgroups (uniq_ordered (concat b) {}) t) ! i"
  unfolding relabel_def using pmap_nth [OF distinct_uniq_ordered assms] by simp

lemma map_relabel_group:
  "map (relabel b) (pgroups (uniq_ordered (concat b) {}) t)
   = sort (pgroups (uniq_ordered (concat b) {}) t)"
  by (rule nth_equalityI) (simp_all add: relabel_nth)

lemma in_own_group:
  "p \<in> set (concat b) \<Longrightarrow> p \<in> set (pgroups (uniq_ordered (concat b) {}) (hd p))"
  by (simp add: pgroups_def set_uniq_ordered)

lemma relabel_in_group:
  assumes "p \<in> set (concat b)"
  shows "relabel b p \<in> set (pgroups (uniq_ordered (concat b) {}) (hd p))"
proof -
  let ?g = "pgroups (uniq_ordered (concat b) {}) (hd p)"
  from in_own_group [OF assms] have "relabel b p \<in> set (map (relabel b) ?g)"
    by simp
  then show ?thesis by (simp only: map_relabel_group set_sort)
qed

lemma relabel_hd: "p \<in> set (concat b) \<Longrightarrow> hd (relabel b p) = hd p"
  using relabel_in_group [of p b] by (simp add: pgroups_def)

lemma relabel_in_board: "p \<in> set (concat b) \<Longrightarrow> relabel b p \<in> set (concat b)"
  using relabel_in_group [of p b] by (simp add: pgroups_def set_uniq_ordered)

lemma relabel_inj: "inj_on (relabel b) (set (concat b))"
proof (rule inj_onI)
  fix p q
  assume p: "p \<in> set (concat b)" and q: "q \<in> set (concat b)"
    and eq: "relabel b p = relabel b q"
  let ?g = "pgroups (uniq_ordered (concat b) {}) (hd p)"
  from eq relabel_hd [OF p] relabel_hd [OF q] have hd: "hd q = hd p" by simp
  have dg: "distinct ?g" by (simp add: pgroups_def distinct_uniq_ordered)
  have "distinct (map (relabel b) ?g)"
    by (simp only: map_relabel_group distinct_sort dg)
  then have "inj_on (relabel b) (set ?g)" by (simp add: distinct_map)
  moreover have "p \<in> set ?g" by (rule in_own_group [OF p])
  moreover have "q \<in> set ?g" using in_own_group [OF q] hd by simp
  ultimately show "p = q" using eq by (auto dest: inj_onD)
qed

lemma concat_map_map: "concat (map (map f) b) = map f (concat b)"
  by (induction b) auto

lemma pieces_relabelled:
  "uniq_ordered (concat (map (map (relabel b)) b)) {}
   = map (relabel b) (uniq_ordered (concat b) {})"
  using uniq_ordered_map [of "relabel b" "concat b" "{}"] relabel_inj [of b]
  by (simp add: concat_map_map)

lemma group_relabelled:
  "pgroups (map (relabel b) (uniq_ordered (concat b) {})) t
   = sort (pgroups (uniq_ordered (concat b) {}) t)"
proof -
  let ?P = "uniq_ordered (concat b) {}"
  have "pgroups (map (relabel b) ?P) t
        = map (relabel b) (filter (\<lambda>p. hd (relabel b p) = t) ?P)"
    by (simp add: pgroups_def filter_map comp_def)
  also have "filter (\<lambda>p. hd (relabel b p) = t) ?P = filter (\<lambda>p. hd p = t) ?P"
    by (rule filter_cong) (auto simp: set_uniq_ordered relabel_hd)
  also have "map (relabel b) (filter (\<lambda>p. hd p = t) ?P) = sort (pgroups ?P t)"
    using map_relabel_group [of b t] by (simp add: pgroups_def)
  finally show ?thesis .
qed

lemma relabel_fixes_baseform:
  assumes q: "q \<in> set (concat (map (map (relabel b)) b))"
  shows "relabel (map (map (relabel b)) b) q = q"
proof -
  let ?b' = "map (map (relabel b)) b"
  let ?g' = "pgroups (uniq_ordered (concat ?b') {}) (hd q)"
  have g': "?g' = sort (pgroups (uniq_ordered (concat b) {}) (hd q))"
    by (simp only: pieces_relabelled group_relabelled)
  have sg': "sort ?g' = ?g'" unfolding g' by (simp add: sorted_sort_id)
  from in_own_group [OF q] obtain i where i: "i < length ?g'" and qi: "?g' ! i = q"
    by (auto simp: in_set_conv_nth)
  from relabel_nth [OF i] show ?thesis by (simp only: sg' qi)
qed

lemma baseform_twice:
  assumes "[] \<notin> set (concat b)" and "baseform b = Inr b'"
  shows "baseform b' = Inr b'"
proof -
  from assms baseform_relabel have b': "b' = map (map (relabel b)) b" by simp
  have ne: "[] \<notin> set (concat b')"
  proof
    assume "[] \<in> set (concat b')"
    then have "[] \<in> relabel b ` set (concat b)"
      by (simp add: b' concat_map_map)
    then obtain p where p: "p \<in> set (concat b)" and "[] = relabel b p" ..
    with relabel_in_board [OF p] assms(1) show False by simp
  qed
  have "map (map (relabel b')) b' = b'"
  proof -
    have "map (relabel b') row = row" if "row \<in> set b'" for row
    proof (rule map_idI)
      fix q assume "q \<in> set row"
      with that have "q \<in> set (concat b')" by auto
      then show "relabel b' q = q" unfolding b' by (rule relabel_fixes_baseform)
    qed
    then show ?thesis by (simp add: map_idI)
  qed
  with baseform_relabel [OF ne] show ?thesis by simp
qed


lemma group_renamed:
  assumes inj: "inj_on s (set (concat b))"
    and ty: "\<forall>p \<in> set (concat b). hd (s p) = hd p"
  shows "pgroups (uniq_ordered (concat (map (map s) b)) {}) t
         = map s (pgroups (uniq_ordered (concat b) {}) t)"
proof -
  let ?P = "uniq_ordered (concat b) {}"
  have P': "uniq_ordered (concat (map (map s) b)) {} = map s ?P"
    using uniq_ordered_map [of s "concat b" "{}"] inj by (simp add: concat_map_map)
  have "filter (\<lambda>p. hd (s p) = t) ?P = filter (\<lambda>p. hd p = t) ?P"
    by (rule filter_cong) (use ty in \<open>auto simp: set_uniq_ordered\<close>)
  then show ?thesis by (simp add: P' pgroups_def filter_map comp_def)
qed

lemma sort_group_renamed:
  assumes inj: "inj_on s (set (concat b))"
    and onto: "s ` set (concat b) = set (concat b)"
    and ty: "\<forall>p \<in> set (concat b). hd (s p) = hd p"
  shows "sort (map s (pgroups (uniq_ordered (concat b) {}) t))
         = sort (pgroups (uniq_ordered (concat b) {}) t)"
proof -
  let ?g = "pgroups (uniq_ordered (concat b) {}) t"
  have sub: "set ?g \<subseteq> set (concat b)" by (auto simp: pgroups_def set_uniq_ordered)
  have injg: "inj_on s (set ?g)" by (rule inj_on_subset [OF inj sub])
  have "s ` set ?g \<subseteq> set ?g"
  proof
    fix q assume "q \<in> s ` set ?g"
    then obtain p where p: "p \<in> set ?g" and q: "q = s p" by auto
    from p have pb: "p \<in> set (concat b)" and hp: "hd p = t"
      by (auto simp: pgroups_def set_uniq_ordered)
    from pb onto have "s p \<in> set (concat b)" by auto
    moreover from pb ty hp have "hd (s p) = t" by auto
    ultimately show "q \<in> set ?g" by (simp add: q pgroups_def set_uniq_ordered)
  qed
  then have img: "s ` set ?g = set ?g" by (rule endo_inj_surj [OF finite_set _ injg])
  have dg: "distinct ?g" by (simp add: pgroups_def distinct_uniq_ordered)
  show ?thesis
  proof (rule sorted_distinct_set_unique)
    show "sorted (sort (map s ?g))" by simp
    show "distinct (sort (map s ?g))" by (simp add: distinct_map dg injg)
    show "sorted (sort ?g)" by simp
    show "distinct (sort ?g)" by (simp add: dg)
    show "set (sort (map s ?g)) = set (sort ?g)" by (simp add: img)
  qed
qed

lemma relabel_renamed:
  assumes inj: "inj_on s (set (concat b))"
    and onto: "s ` set (concat b) = set (concat b)"
    and ty: "\<forall>p \<in> set (concat b). hd (s p) = hd p"
    and p: "p \<in> set (concat b)"
  shows "relabel (map (map s) b) (s p) = relabel b p"
proof -
  let ?b' = "map (map s) b"
  let ?g = "pgroups (uniq_ordered (concat b) {}) (hd p)"
  let ?g' = "pgroups (uniq_ordered (concat ?b') {}) (hd p)"
  have g': "?g' = map s ?g" by (rule group_renamed [OF inj ty])
  from in_own_group [OF p] obtain i where i: "i < length ?g" and pi: "?g ! i = p"
    by (auto simp: in_set_conv_nth)
  from i have i': "i < length ?g'" by (simp add: g')
  have "relabel ?b' (?g' ! i) = sort ?g' ! i" by (rule relabel_nth [OF i'])
  also have "?g' ! i = s p" using i pi by (simp add: g')
  also have "sort ?g' = sort ?g"
    unfolding g' by (rule sort_group_renamed [OF inj onto ty])
  also have "sort ?g ! i = relabel b (?g ! i)" by (rule relabel_nth [OF i, symmetric])
  finally show ?thesis by (simp add: pi)
qed

lemma baseform_renamed:
  assumes ne: "[] \<notin> set (concat b)"
    and inj: "inj_on s (set (concat b))"
    and onto: "s ` set (concat b) = set (concat b)"
    and ty: "\<forall>p \<in> set (concat b). hd (s p) = hd p"
  shows "baseform (map (map s) b) = baseform b"
proof -
  let ?b' = "map (map s) b"
  have ne': "[] \<notin> set (concat ?b')"
    using ne onto by (simp add: concat_map_map)
  have "map (map (relabel ?b')) ?b' = map (map (relabel b)) b"
  proof -
    have "map (relabel ?b' \<circ> s) row = map (relabel b) row" if "row \<in> set b" for row
    proof (rule map_cong [OF refl])
      fix q assume "q \<in> set row"
      with that have "q \<in> set (concat b)" by auto
      then show "(relabel ?b' \<circ> s) q = relabel b q"
        by (simp add: relabel_renamed [OF inj onto ty])
    qed
    then show ?thesis by (simp add: comp_def)
  qed
  then show ?thesis by (simp only: baseform_relabel [OF ne] baseform_relabel [OF ne'])
qed


text \<open>
  C9. For every board whose identifiers are non-empty strings (every well-formed board
  is one), \<^verbatim>\<open>baseform\<close> returns a board and \<^verbatim>\<open>baseform\<close> of that board is the same
  board again.
\<close>

theorem baseform_idempotent:
  assumes "[] \<notin> set (concat b)"
  shows "\<exists>b'. baseform b = Inr b' \<and> baseform b' = Inr b'"
  using baseform_relabel [OF assms] baseform_twice [OF assms] by simp

theorem baseform_idempotent_witness:
  "[] \<notin> set (concat shuffled_board)
   \<and> (\<exists>b'. baseform shuffled_board = Inr b' \<and> baseform b' = Inr b')"
proof -
  have h: "[] \<notin> set (concat shuffled_board)" by code_simp
  show ?thesis by (rule conjI [OF h baseform_idempotent [OF h]])
qed

text \<open>
  C7. Let \<open>s\<close> rename the identifiers of a board \<open>b\<close> (non-empty strings) one to one
  onto the identifiers of \<open>b\<close>, keeping the type tag (the first character) of each.
  Then \<^verbatim>\<open>baseform\<close> of the renamed board is \<^verbatim>\<open>baseform\<close> of \<open>b\<close>, cell for cell.
\<close>

theorem baseform_renaming:
  assumes "[] \<notin> set (concat b)"
    and "inj_on s (set (concat b))"
    and "s ` set (concat b) = set (concat b)"
    and "\<forall>p \<in> set (concat b). hd (s p) = hd p"
  shows "baseform (map (map s) b) = baseform b"
  using assms by (rule baseform_renamed)

theorem baseform_renaming_witness:
  "map (map shuffle) start_board = shuffled_board
   \<and> baseform shuffled_board = baseform start_board"
proof -
  have ne: "[] \<notin> set (concat start_board)" by code_simp
  have inj: "inj_on shuffle (set (concat start_board))"
    by (simp add: start_board_def shuffle_def inj_on_def)
  have onto: "shuffle ` set (concat start_board) = set (concat start_board)"
    by (auto simp add: start_board_def shuffle_def)
  have ty: "\<forall>p \<in> set (concat start_board). hd (shuffle p) = hd p" by code_simp
  have m: "map (map shuffle) start_board = shuffled_board" by code_simp
  from baseform_renaming [OF ne inj onto ty] m show ?thesis by simp
qed

section \<open>The search loop\<close>

lemma expand_Return_nonempty:
  "expand seen worklist kmoves xs = Inr (Return b' moves seen') \<Longrightarrow> moves \<noteq> []"
proof (induction seen worklist kmoves xs rule: expand.induct)
  case (1 seen worklist kmoves)
  then show ?case by simp
next
  case (2 seen worklist kmoves e rest)
  then show ?case by simp
next
  case (3 seen worklist kmoves nboard nmove rest)
  then show ?case
    by (auto split: sum.splits if_splits bool.splits)
qed

lemma search_loop_moves_nonempty:
  assumes ret: "search_loop so seen worklist = Some (Inr (Some (b', moves), seen'))"
  shows "moves \<noteq> []"
proof -
  have "(case r of Inr (Some (b', moves), seen') \<Rightarrow> moves \<noteq> [] | _ \<Rightarrow> True)"
    if "search_loop so seen worklist = Some r" for r
  proof (rule search_loop.raw_induct
      [where P = "\<lambda>so seen worklist r.
         (case r of Inr (Some (b', moves), seen') \<Rightarrow> moves \<noteq> [] | _ \<Rightarrow> True)", OF _ that])
    fix f so seen worklist r
    assume IH: "\<And>so seen worklist r. f so seen worklist = Some r \<Longrightarrow>
        (case r of Inr (Some (b', moves), seen') \<Rightarrow> moves \<noteq> [] | _ \<Rightarrow> True)"
      and eq: "(case worklist of
          [] \<Rightarrow> Some (Inr (None, seen))
        | (kboard, kmoves) # worklist' \<Rightarrow>
            (case expand seen worklist' kmoves (possible_moves so kboard) of
               Inl e \<Rightarrow> Some (Inl e)
             | Inr (Return nboard moves seen') \<Rightarrow> Some (Inr (Some (nboard, moves), seen'))
             | Inr (Continue seen' worklist'') \<Rightarrow> f so seen' worklist'')) = Some r"
    show "(case r of Inr (Some (b', moves), seen') \<Rightarrow> moves \<noteq> [] | _ \<Rightarrow> True)"
    proof (cases worklist)
      case Nil
      with eq show ?thesis by auto
    next
      case (Cons k worklist')
      obtain kboard kmoves where k: "k = (kboard, kmoves)" by (cases k)
      show ?thesis
      proof (cases "expand seen worklist' kmoves (possible_moves so kboard)")
        case (Inl e)
        with eq Cons k show ?thesis by auto
      next
        case (Inr x)
        show ?thesis
        proof (cases x)
          case (Return nboard moves seen')
          with Inr have "moves \<noteq> []" by (auto dest: expand_Return_nonempty)
          with eq Cons k Inr Return show ?thesis by auto
        next
          case (Continue seen' worklist'')
          with eq Cons k Inr have "f so seen' worklist'' = Some r" by simp
          then show ?thesis by (rule IH)
        qed
      qed
    qed
  qed
  from this [OF ret] show ?thesis by simp
qed

text \<open>
  C1 (amended). \<^verbatim>\<open>search\<close> never tests the start board against the goal predicate:
  \<^verbatim>\<open>accept\<close> is called on successors only. So a solution that \<^verbatim>\<open>search\<close> returns
  always has at least one move, also when the start board already satisfies the goal;
  there is no zero-move solution.
\<close>

theorem search_solution_has_a_move:
  assumes "search so b = Some (Inr (Some (b', moves)))"
  shows "moves \<noteq> []"
proof -
  from assms obtain r where r: "search_loop so {} [(b, [])] = Some r"
    and m: "map_sum id fst r = Inr (Some (b', moves))"
    by (auto simp: search_def search_run_def)
  from m obtain seen' where "r = Inr (Some (b', moves), seen')"
    by (cases r) auto
  with r show ?thesis by (auto dest: search_loop_moves_nonempty)
qed

theorem search_solution_has_a_move_witness:
  "search scan_order goal_board = Some (Inr (Some (goal_board_next, [(''g2'', 0, 1)])))
   \<and> [(''g2'', 0, 1)] \<noteq> ([] :: move list)"
proof -
  have h: "search scan_order goal_board
      = Some (Inr (Some (goal_board_next, [(''g2'', 0, 1)])))"
    by code_simp
  show ?thesis by (rule conjI [OF h search_solution_has_a_move [OF h]])
qed

text \<open>
  C1 as stated fails: on \<open>goal_board\<close>, which satisfies the goal predicate, the search
  expands the start board and returns the first successor with a one-move list.
\<close>

theorem search_on_goal_board_counterexample:
  "accept goal_board = Inr True
   \<and> search scan_order goal_board = Some (Inr (Some (goal_board_next, [(''g2'', 0, 1)])))
   \<and> search scan_order goal_board \<noteq> Some (Inr (Some (goal_board, [])))"
  by code_simp

text \<open>
  C5 (amended). When \<^verbatim>\<open>possible_moves\<close> yields nothing for the start board, the search
  returns \<^verbatim>\<open>None\<close>, the no-solution value, after one pass of the loop, and the visited
  set is empty at that moment: the canonical form of the start board is never added to
  it (only successors are).
\<close>

theorem search_without_successors:
  "possible_moves so b = [] \<Longrightarrow>
     search so b = Some (Inr None) \<and> search_run so b = Some (Inr (None, {}))"
  by (simp add: search_def search_run_def search_loop.simps [of so "{}" "[(b, [])]"]
      search_loop.simps [of so "{}" "[]"])

theorem search_without_successors_witness:
  "possible_moves scan_order locked_board = []
   \<and> search scan_order locked_board = Some (Inr None)
   \<and> search_run scan_order locked_board = Some (Inr (None, {}))"
proof -
  have h: "possible_moves scan_order locked_board = []" by code_simp
  show ?thesis by (rule conjI [OF h search_without_successors [OF h]])
qed

text \<open>
  C5 as stated fails on \<open>locked_board\<close>: the board is well formed, nothing can move, the
  goal predicate is false, the search returns the no-solution value, and the visited set
  is empty, not the set that holds the canonical form of the start board.
\<close>

theorem search_locked_board_counterexample:
  "wf_board locked_board
   \<and> possible_moves scan_order locked_board = []
   \<and> accept locked_board = Inr False
   \<and> baseform locked_board = Inr locked_board
   \<and> search_run scan_order locked_board = Some (Inr (None, {}))
   \<and> ({} :: board set) \<noteq> {locked_board}"
  by code_simp

text \<open>
  C6. For a successor \<open>(nboard, nmove)\<close> of the node \<open>(kboard, kmoves)\<close> whose canonical
  form is not in the visited set and which does not satisfy the goal: when \<open>kmoves\<close> is
  not empty and its last move has the piece and the direction \<open>(dx, dy)\<close> of \<open>nmove\<close>,
  the node \<open>(nboard, kmoves[:-1] + [(piece, 2*dx, 2*dy)])\<close> goes to the front of the
  queue; otherwise \<open>(nboard, kmoves + [nmove])\<close> goes to the back. The loop then goes on
  with the next successor.
\<close>

theorem search_pushes_front_or_back:
  assumes "baseform nboard = Inr bfnboard" and "bfnboard \<notin> seen"
    and "accept nboard = Inr False"
  shows "expand seen worklist kmoves (Inr (nboard, (p, dx, dy)) # rest) =
     expand (insert bfnboard seen)
       (if kmoves \<noteq> [] \<and> fst (last kmoves) = p \<and> snd (last kmoves) = (dx, dy)
        then (nboard, butlast kmoves @ [(p, 2 * dx, 2 * dy)]) # worklist
        else worklist @ [(nboard, kmoves @ [(p, dx, dy)])])
       kmoves rest"
  using assms by (auto simp: push_def double_move_def prod_eq_iff)

theorem search_pushes_front_or_back_witness:
  "expand {} [(start_board, [])] [(''g2'', 0, 1)] [Inr (start_board, (''g2'', 0, 1))] =
     expand {start_board} [(start_board, [(''g2'', 0, 2)]), (start_board, [])]
       [(''g2'', 0, 1)] []
   \<and> expand {} [(start_board, [])] [(''g2'', 0, 2)] [Inr (start_board, (''g2'', 0, 1))] =
     expand {start_board} [(start_board, []), (start_board, [(''g2'', 0, 2), (''g2'', 0, 1)])]
       [(''g2'', 0, 2)] []"
proof -
  have bf: "baseform start_board = Inr start_board" by code_simp
  have ns: "start_board \<notin> ({} :: board set)" by simp
  have na: "accept start_board = Inr False" by code_simp
  show ?thesis
    using search_pushes_front_or_back [OF bf ns na, of "[(start_board, [])]"
        "[(''g2'', 0, 1)]" "''g2''" 0 1 "[]"]
      search_pushes_front_or_back [OF bf ns na, of "[(start_board, [])]"
        "[(''g2'', 0, 2)]" "''g2''" 0 1 "[]"]
    by simp
qed

end
